theory Spec2Isabelle
  imports Main "HOL-Library.AList"
begin

section \<open>JavaScript values and the object heap\<close>

text \<open>
  The configuration manager mutates shared objects: \<open>getOrCreateConfigPath\<close> returns a
  reference into the live document, \<open>mergeConfigs\<close> writes into its target, and
  \<open>configSection\<close> installs the caller's own object into the document. Values are
  therefore modelled with an explicit heap: a value is a primitive or a reference, and
  a heap cell is a plain object (\<open>Mapping\<close>, its own properties in insertion order) or
  an array (\<open>Arr\<close>, its elements, \<open>None\<close> for a hole, and its other named properties).

  What the model leaves out of JavaScript:
  \<^item> properties inherited from the built-in prototypes (a key such as \<open>toString\<close> or
    \<open>__proto__\<close> is looked up, and written, among the own properties only);
  \<^item> numbers other than integers, and the rounding of an integer that a JavaScript
    number does not hold exactly (beyond \<open>2^53\<close>);
  \<^item> the numeric-keys-first enumeration order of plain objects: keys are enumerated in
    insertion order, which is JavaScript's order for keys that are not array indices;
  \<^item> the conversion of a string or an array to a number when it is assigned to the
    \<open>length\<close> of an array (the result \<open>Unmodelled\<close>).
\<close>

type_synonym addr = nat

datatype val = VUndef | VNull | VBool bool | VNum int | VStr string | VRef addr

datatype obj =
    Mapping "(string \<times> val) list"
  | Arr "val option list" "(string \<times> val) list"

type_synonym heap = "obj list"

datatype error =
    TypeError
  | RangeError
  | SyntaxError
  | StackOverflow
  | InvalidPathCharacter string
  | InvalidPathBoundary string
  | InvalidPathSegment string
  | Unmodelled

definition bindE :: "error + 'a \<Rightarrow> ('a \<Rightarrow> error + 'b) \<Rightarrow> error + 'b" where
  "bindE m f = (case m of Inl e \<Rightarrow> Inl e | Inr x \<Rightarrow> f x)"

definition cell :: "heap \<Rightarrow> addr \<Rightarrow> obj option" where
  "cell h a = (if a < length h then Some (h ! a) else None)"

definition alloc :: "heap \<Rightarrow> obj \<Rightarrow> addr \<times> heap" where
  "alloc h ob = (length h, h @ [ob])"

text \<open>\<open>typeof\<close>, truthiness and \<open>Array.isArray\<close>.\<close>

fun typeof :: "val \<Rightarrow> string" where
  "typeof VUndef = ''undefined''"
| "typeof VNull = ''object''"
| "typeof (VBool b) = ''boolean''"
| "typeof (VNum n) = ''number''"
| "typeof (VStr s) = ''string''"
| "typeof (VRef a) = ''object''"

fun truthy :: "val \<Rightarrow> bool" where
  "truthy VUndef = False"
| "truthy VNull = False"
| "truthy (VBool b) = b"
| "truthy (VNum n) = (n \<noteq> 0)"
| "truthy (VStr s) = (s \<noteq> [])"
| "truthy (VRef a) = True"

fun isArray :: "heap \<Rightarrow> val \<Rightarrow> bool" where
  "isArray h (VRef a) = (case cell h a of Some (Arr es ns) \<Rightarrow> True | _ \<Rightarrow> False)"
| "isArray h v = False"

text \<open>Array indices: the canonical decimal strings below \<open>2^32 - 1\<close>.\<close>

definition digit_of :: "char \<Rightarrow> nat option" where
  "digit_of c =
     map_of [(CHR ''0'', 0), (CHR ''1'', 1), (CHR ''2'', 2), (CHR ''3'', 3), (CHR ''4'', 4),
             (CHR ''5'', 5), (CHR ''6'', 6), (CHR ''7'', 7), (CHR ''8'', 8), (CHR ''9'', 9)] c"

definition is_digit :: "char \<Rightarrow> bool" where
  "is_digit c = (digit_of c \<noteq> None)"

definition digits_val :: "string \<Rightarrow> nat" where
  "digits_val s = foldl (\<lambda>n c. 10 * n + (case digit_of c of None \<Rightarrow> 0 | Some d \<Rightarrow> d)) 0 s"

definition is_index :: "string \<Rightarrow> bool" where
  "is_index k = (k \<noteq> [] \<and> list_all is_digit k \<and> (k = ''0'' \<or> hd k \<noteq> CHR ''0'')
     \<and> length k \<le> 10 \<and> int (digits_val k) < 4294967295)"

fun string_of_nat :: "nat \<Rightarrow> string" where
  "string_of_nat n =
     (if n < 10 then [''0123456789'' ! n]
      else string_of_nat (n div 10) @ [''0123456789'' ! (n mod 10)])"

declare string_of_nat.simps [simp del]

text \<open>Property read \<open>recv[k]\<close>.\<close>

definition lookup_prop :: "(string \<times> val) list \<Rightarrow> string \<Rightarrow> val" where
  "lookup_prop ps k = (case map_of ps k of None \<Rightarrow> VUndef | Some v \<Rightarrow> v)"

definition elem_at :: "val option list \<Rightarrow> nat \<Rightarrow> val" where
  "elem_at es i = (if i < length es then (case es ! i of None \<Rightarrow> VUndef | Some v \<Rightarrow> v) else VUndef)"

fun get_obj :: "obj \<Rightarrow> string \<Rightarrow> val" where
  "get_obj (Mapping ps) k = lookup_prop ps k"
| "get_obj (Arr es ns) k =
     (if is_index k then elem_at es (digits_val k)
      else if k = ''length'' then VNum (int (length es))
      else lookup_prop ns k)"

fun get_prop :: "heap \<Rightarrow> val \<Rightarrow> string \<Rightarrow> error + val" where
  "get_prop h VUndef k = Inl TypeError"
| "get_prop h VNull k = Inl TypeError"
| "get_prop h (VBool b) k = Inr VUndef"
| "get_prop h (VNum n) k = Inr VUndef"
| "get_prop h (VStr s) k =
     Inr (if k = ''length'' then VNum (int (length s))
          else if is_index k \<and> digits_val k < length s then VStr [s ! digits_val k]
          else VUndef)"
| "get_prop h (VRef a) k =
     (case cell h a of None \<Rightarrow> Inl TypeError | Some ob \<Rightarrow> Inr (get_obj ob k))"

text \<open>
  Property write \<open>recv[k] = v\<close>, in strict mode (the code is a class in a module): a
  write to a primitive throws. Writing an index at or past the end of an array leaves
  holes; writing \<open>length\<close> truncates or extends, and throws on an invalid length.
\<close>

fun array_length_of :: "heap \<Rightarrow> val \<Rightarrow> error + nat" where
  "array_length_of h (VNum n) =
     (if 0 \<le> n \<and> n < 4294967296 then Inr (nat n) else Inl RangeError)"
| "array_length_of h VNull = Inr 0"
| "array_length_of h (VBool b) = Inr (if b then 1 else 0)"
| "array_length_of h VUndef = Inl RangeError"
| "array_length_of h (VStr s) = Inl Unmodelled"
| "array_length_of h (VRef a) =
     (case cell h a of Some (Mapping ps) \<Rightarrow> Inl RangeError | _ \<Rightarrow> Inl Unmodelled)"

fun set_obj :: "heap \<Rightarrow> obj \<Rightarrow> string \<Rightarrow> val \<Rightarrow> error + obj" where
  "set_obj h (Mapping ps) k v = Inr (Mapping (AList.update k v ps))"
| "set_obj h (Arr es ns) k v =
     (if is_index k then
        Inr (Arr (if digits_val k < length es then es[digits_val k := Some v]
                  else es @ replicate (digits_val k - length es) None @ [Some v]) ns)
      else if k = ''length'' then
        bindE (array_length_of h v)
          (\<lambda>n. Inr (Arr (take n es @ replicate (n - length es) None) ns))
      else Inr (Arr es (AList.update k v ns)))"

fun set_prop :: "heap \<Rightarrow> val \<Rightarrow> string \<Rightarrow> val \<Rightarrow> error + heap" where
  "set_prop h (VRef a) k v =
     (case cell h a of None \<Rightarrow> Inl TypeError
      | Some ob \<Rightarrow> bindE (set_obj h ob k v) (\<lambda>ob'. Inr (h[a := ob'])))"
| "set_prop h recv k v = Inl TypeError"

text \<open>\<open>delete recv[k]\<close> in strict mode, and \<open>Object.keys(recv)\<close>.\<close>

fun delete_prop :: "heap \<Rightarrow> val \<Rightarrow> string \<Rightarrow> error + heap" where
  "delete_prop h VUndef k = Inl TypeError"
| "delete_prop h VNull k = Inl TypeError"
| "delete_prop h (VBool b) k = Inr h"
| "delete_prop h (VNum n) k = Inr h"
| "delete_prop h (VStr s) k =
     (if k = ''length'' \<or> (is_index k \<and> digits_val k < length s) then Inl TypeError else Inr h)"
| "delete_prop h (VRef a) k =
     (case cell h a of None \<Rightarrow> Inl TypeError
      | Some (Mapping ps) \<Rightarrow> Inr (h[a := Mapping (AList.delete k ps)])
      | Some (Arr es ns) \<Rightarrow>
          (if is_index k then
             Inr (if digits_val k < length es then h[a := Arr (es[digits_val k := None]) ns] else h)
           else if k = ''length'' then Inl TypeError
           else Inr (h[a := Arr es (AList.delete k ns)])))"

definition index_keys :: "val option list \<Rightarrow> string list" where
  "index_keys es = map string_of_nat (filter (\<lambda>i. es ! i \<noteq> None) [0..<length es])"

fun keys_obj :: "obj \<Rightarrow> string list" where
  "keys_obj (Mapping ps) = map fst ps"
| "keys_obj (Arr es ns) = index_keys es @ map fst ns"

fun own_keys :: "heap \<Rightarrow> val \<Rightarrow> error + string list" where
  "own_keys h VUndef = Inl TypeError"
| "own_keys h VNull = Inl TypeError"
| "own_keys h (VBool b) = Inr []"
| "own_keys h (VNum n) = Inr []"
| "own_keys h (VStr s) = Inr (map string_of_nat [0..<length s])"
| "own_keys h (VRef a) =
     (case cell h a of None \<Rightarrow> Inl TypeError | Some ob \<Rightarrow> Inr (keys_obj ob))"

section \<open>ConfigMerger.ts\<close>

text \<open>
  \<^verbatim>\<open>isObject(item) = item && typeof item === 'object' && !Array.isArray(item)\<close>,
  read as a condition.
\<close>

definition isObject :: "heap \<Rightarrow> val \<Rightarrow> bool" where
  "isObject h item = (truthy item \<and> typeof item = ''object'' \<and> \<not> isArray h item)"

text \<open>
  \<open>mergeConfigs(target, ...sources)\<close>. The first argument bounds the depth of the call
  stack: every call of \<open>mergeConfigs\<close>, the nested one and the one on the remaining
  sources, takes a frame, and a call with none left is the engine's stack overflow.
  \<open>merge_props\<close> is the \<open>for (const key in source)\<close> loop over the keys that the
  source had when the loop started. \<open>Object.assign(target, {[key]: v})\<close> on a plain
  object is the write \<open>target[key] = v\<close>; the temporary literal is not allocated.
\<close>

fun mergeConfigs :: "nat \<Rightarrow> heap \<Rightarrow> val \<Rightarrow> val list \<Rightarrow> error + (val \<times> heap)"
  and merge_props :: "nat \<Rightarrow> heap \<Rightarrow> val \<Rightarrow> val \<Rightarrow> string list \<Rightarrow> error + heap"
where
  "mergeConfigs 0 h target sources = Inl StackOverflow"
| "mergeConfigs (Suc n) h target [] = Inr (target, h)"
| "mergeConfigs (Suc n) h target (source # sources) =
     (if isObject h target \<and> isObject h source then
        bindE (own_keys h source) (\<lambda>keys.
        bindE (merge_props n h target source keys) (\<lambda>h'.
        mergeConfigs n h' target sources))
      else mergeConfigs n h target sources)"
| "merge_props n h target source [] = Inr h"
| "merge_props n h target source (key # keys) =
     bindE (get_prop h source key) (\<lambda>sv.
       if isObject h sv then
         bindE (get_prop h target key) (\<lambda>tv.
         bindE (if \<not> truthy tv
                then (case alloc h (Mapping []) of (a, h0) \<Rightarrow> set_prop h0 target key (VRef a))
                else Inr h) (\<lambda>h1.
         bindE (get_prop h1 target key) (\<lambda>tv1.
         bindE (get_prop h1 source key) (\<lambda>sv1.
         bindE (mergeConfigs n h1 tv1 [sv1]) (\<lambda>r.
         merge_props n (snd r) target source keys)))))
       else
         bindE (get_prop h source key) (\<lambda>sv2.
         bindE (set_prop h target key sv2) (\<lambda>h1.
         merge_props n h1 target source keys)))"

section \<open>JSON documents\<close>

text \<open>
  A JSON document as a tree. \<open>alloc_tree\<close> builds the objects of a tree in the heap,
  children first, as \<open>JSON.parse\<close> and an object literal do; \<open>stringify\<close> reads a
  value back as the tree that \<open>JSON.stringify\<close> writes: a property whose value is
  \<open>undefined\<close> is left out, an \<open>undefined\<close> element or a hole of an array is
  \<open>null\<close>, the named properties of an array are ignored, and \<open>undefined\<close> itself has
  no text (\<open>None\<close>). A structure that contains itself throws: an object below more
  objects than the heap holds is below itself.
\<close>

datatype jv =
    JNull
  | JBool bool
  | JNum int
  | JStr string
  | JArr "jv list"
  | JObj "(string \<times> jv) list"

fun alloc_tree :: "heap \<Rightarrow> jv \<Rightarrow> val \<times> heap"
  and alloc_elems :: "heap \<Rightarrow> jv list \<Rightarrow> val list \<times> heap"
  and alloc_props :: "heap \<Rightarrow> (string \<times> jv) list \<Rightarrow> (string \<times> val) list \<times> heap"
where
  "alloc_tree h JNull = (VNull, h)"
| "alloc_tree h (JBool b) = (VBool b, h)"
| "alloc_tree h (JNum n) = (VNum n, h)"
| "alloc_tree h (JStr s) = (VStr s, h)"
| "alloc_tree h (JArr xs) =
     (case alloc_elems h xs of (vs, h') \<Rightarrow>
        (case alloc h' (Arr (map Some vs) []) of (a, h'') \<Rightarrow> (VRef a, h'')))"
| "alloc_tree h (JObj kvs) =
     (case alloc_props h kvs of (ps, h') \<Rightarrow>
        (case alloc h' (Mapping ps) of (a, h'') \<Rightarrow> (VRef a, h'')))"
| "alloc_elems h [] = ([], h)"
| "alloc_elems h (x # xs) =
     (case alloc_tree h x of (v, h') \<Rightarrow>
        (case alloc_elems h' xs of (vs, h'') \<Rightarrow> (v # vs, h'')))"
| "alloc_props h [] = ([], h)"
| "alloc_props h (kv # kvs) =
     (case alloc_tree h (snd kv) of (v, h') \<Rightarrow>
        (case alloc_props h' kvs of (ps, h'') \<Rightarrow> ((fst kv, v) # ps, h'')))"

fun stringify_fuel :: "nat \<Rightarrow> heap \<Rightarrow> val \<Rightarrow> error + jv option"
  and stringify_elems :: "nat \<Rightarrow> heap \<Rightarrow> val option list \<Rightarrow> error + jv list"
  and stringify_props :: "nat \<Rightarrow> heap \<Rightarrow> (string \<times> val) list \<Rightarrow> error + (string \<times> jv) list"
where
  "stringify_fuel n h VUndef = Inr None"
| "stringify_fuel n h VNull = Inr (Some JNull)"
| "stringify_fuel n h (VBool b) = Inr (Some (JBool b))"
| "stringify_fuel n h (VNum i) = Inr (Some (JNum i))"
| "stringify_fuel n h (VStr s) = Inr (Some (JStr s))"
| "stringify_fuel 0 h (VRef a) = Inl TypeError"
| "stringify_fuel (Suc n) h (VRef a) =
     (case cell h a of
        None \<Rightarrow> Inl TypeError
      | Some (Mapping ps) \<Rightarrow> bindE (stringify_props n h ps) (\<lambda>kvs. Inr (Some (JObj kvs)))
      | Some (Arr es ns) \<Rightarrow> bindE (stringify_elems n h es) (\<lambda>xs. Inr (Some (JArr xs))))"
| "stringify_elems n h [] = Inr []"
| "stringify_elems n h (e # es) =
     bindE (case e of None \<Rightarrow> Inr None | Some v \<Rightarrow> stringify_fuel n h v) (\<lambda>x.
     bindE (stringify_elems n h es) (\<lambda>xs.
     Inr ((case x of None \<Rightarrow> JNull | Some t \<Rightarrow> t) # xs)))"
| "stringify_props n h [] = Inr []"
| "stringify_props n h (p # ps) =
     bindE (stringify_fuel n h (snd p)) (\<lambda>x.
     bindE (stringify_props n h ps) (\<lambda>kvs.
     Inr (case x of None \<Rightarrow> kvs | Some t \<Rightarrow> (fst p, t) # kvs)))"

definition stringify :: "heap \<Rightarrow> val \<Rightarrow> error + jv option" where
  "stringify h v = stringify_fuel (length h) h v"

section \<open>ConfigManager.ts\<close>

subsection \<open>Path validation\<close>

text \<open>
  The three regular expressions of \<open>validatePath\<close>, each used with \<open>test\<close>, which
  searches the whole string for a match:
  \<^item> \<^verbatim>\<open>/[a-z0-9_\-.]+/gi\<close> has no anchors: it matches as soon as one character of
    the path is in the class (\<open>i\<close>: both cases of the letters);
  \<^item> \<^verbatim>\<open>/(^\.)|(\.$)/g\<close>: the path starts or ends with a dot;
  \<^item> \<^verbatim>\<open>/[.]{2,}/g\<close>: two dots in a row somewhere.
\<close>

definition path_char :: "char \<Rightarrow> bool" where
  "path_char c =
     (c \<in> set ''abcdefghijklmnopqrstuvwxyzABCDEFGHIJKLMNOPQRSTUVWXYZ0123456789_-.'')"

definition test_chars :: "string \<Rightarrow> bool" where
  "test_chars path = list_ex path_char path"

definition test_boundary :: "string \<Rightarrow> bool" where
  "test_boundary path = (path \<noteq> [] \<and> (hd path = CHR ''.'' \<or> last path = CHR ''.''))"

fun test_dots :: "string \<Rightarrow> bool" where
  "test_dots (a # b # cs) = ((a = CHR ''.'' \<and> b = CHR ''.'') \<or> test_dots (b # cs))"
| "test_dots cs = False"

definition validatePath :: "string \<Rightarrow> error + unit" where
  "validatePath path =
     (if path = [] then Inr ()
      else if \<not> test_chars path then Inl (InvalidPathCharacter path)
      else if test_boundary path then Inl (InvalidPathBoundary path)
      else if test_dots path then Inl (InvalidPathSegment path)
      else Inr ())"

text \<open>\<open>path.split('.')\<close>: the empty string splits into one empty segment.\<close>

fun split_dot :: "string \<Rightarrow> string list" where
  "split_dot [] = [[]]"
| "split_dot (c # cs) =
     (if c = CHR ''.'' then [] # split_dot cs
      else (case split_dot cs of [] \<Rightarrow> [[c]] | w # ws \<Rightarrow> (c # w) # ws))"

subsection \<open>The store and its file\<close>

text \<open>
  A file holds a text that \<open>JSON.parse\<close> reads as a tree, or a text it rejects. The
  fields of a \<open>ConfigManager\<close> are assigned once, in the constructor; all later change
  is in the heap cells they refer to and in the file system. The stack limit given to
  the constructor and the methods is the depth left for the recursion of
  \<open>mergeConfigs\<close> and of the validation walk. A failure of the file system itself is
  not modelled.
\<close>

datatype contents = Json jv | Malformed

type_synonym fs = "string \<Rightarrow> contents option"

record store =
  created :: bool
  oldConfig :: val
  config :: val
  defaultConfig :: val
  configFileLoadingError :: "error option"
  configFileName :: string

text \<open>
  The constructor: the field initialisers \<open>oldConfig = {}\<close> and \<open>defaultConfig = {}\<close>
  run first; \<open>config\<close> has none. Whatever is thrown inside \<open>try\<close> is caught and
  stored; when \<open>JSON.parse\<close> throws, \<open>config\<close> has not been assigned.
\<close>

definition constructor :: "nat \<Rightarrow> fs \<Rightarrow> heap \<Rightarrow> string \<Rightarrow> store \<times> heap" where
  "constructor lim f h fileName =
     (case alloc h (Mapping []) of (old, h1) \<Rightarrow>
      case alloc h1 (Mapping []) of (dflt, h2) \<Rightarrow>
      (case f fileName of
         None \<Rightarrow>
           (case alloc h2 (Mapping []) of (c, h3) \<Rightarrow>
              (\<lparr>created = True, oldConfig = VRef old, config = VRef c,
                defaultConfig = VRef dflt, configFileLoadingError = None,
                configFileName = fileName\<rparr>, h3))
       | Some Malformed \<Rightarrow>
           (\<lparr>created = False, oldConfig = VRef old, config = VUndef,
             defaultConfig = VRef dflt, configFileLoadingError = Some SyntaxError,
             configFileName = fileName\<rparr>, h2)
       | Some (Json t) \<Rightarrow>
           (case alloc_tree h2 t of (c, h3) \<Rightarrow>
            case alloc h3 (Mapping []) of (copy, h4) \<Rightarrow>
            (case mergeConfigs lim h4 (VRef copy) [c] of
               Inr r \<Rightarrow>
                 (\<lparr>created = False, oldConfig = fst r, config = c,
                   defaultConfig = VRef dflt, configFileLoadingError = None,
                   configFileName = fileName\<rparr>, snd r)
             | Inl e \<Rightarrow>
                 (\<lparr>created = False, oldConfig = VRef old, config = c,
                   defaultConfig = VRef dflt, configFileLoadingError = Some e,
                   configFileName = fileName\<rparr>, h4)))))"

text \<open>
  \<open>saveConfig\<close>: \<open>JSON.stringify(undefined)\<close> is \<open>undefined\<close>, which
  \<open>writeFileSync\<close> refuses with a \<open>TypeError\<close>.
\<close>

definition saveConfig :: "store \<Rightarrow> fs \<Rightarrow> heap \<Rightarrow> error + fs" where
  "saveConfig s f h =
     bindE (stringify h (config s)) (\<lambda>t.
       case t of None \<Rightarrow> Inl TypeError
       | Some doc \<Rightarrow> Inr (f(configFileName s \<mapsto> Json doc)))"

subsection \<open>Path-addressed access\<close>

fun walk_create :: "heap \<Rightarrow> val \<Rightarrow> string list \<Rightarrow> error + (val \<times> heap)" where
  "walk_create h root [] = Inr (root, h)"
| "walk_create h root (p # ps) =
     bindE (get_prop h root p) (\<lambda>v.
     bindE (if typeof v \<noteq> ''object''
            then (case alloc h (Mapping []) of (a, h0) \<Rightarrow> set_prop h0 root p (VRef a))
            else Inr h) (\<lambda>h1.
     bindE (get_prop h1 root p) (\<lambda>r.
     walk_create h1 r ps)))"

definition getOrCreateConfigPath :: "store \<Rightarrow> heap \<Rightarrow> string \<Rightarrow> error + (val \<times> heap)" where
  "getOrCreateConfigPath s h path =
     (if path = [] then Inr (config s, h)
      else bindE (validatePath path) (\<lambda>u. walk_create h (config s) (split_dot path)))"

text \<open>
  \<open>Object.assign(target, source)\<close> in general, for the empty path of
  \<open>updateConfigPath\<close>: a \<open>null\<close> or \<open>undefined\<close> target throws, a \<open>null\<close> or
  \<open>undefined\<close> source is skipped, and a primitive target is wrapped in an object that
  is then dropped (only a string's indices and \<open>length\<close> refuse the write).
\<close>

fun put_prop :: "heap \<Rightarrow> val \<Rightarrow> string \<Rightarrow> val \<Rightarrow> error + heap" where
  "put_prop h (VStr s) k v =
     (if k = ''length'' \<or> (is_index k \<and> digits_val k < length s) then Inl TypeError else Inr h)"
| "put_prop h (VBool b) k v = Inr h"
| "put_prop h (VNum n) k v = Inr h"
| "put_prop h target k v = set_prop h target k v"

fun assign_keys :: "heap \<Rightarrow> val \<Rightarrow> val \<Rightarrow> string list \<Rightarrow> error + heap" where
  "assign_keys h target source [] = Inr h"
| "assign_keys h target source (k # ks) =
     bindE (get_prop h source k) (\<lambda>v.
     bindE (put_prop h target k v) (\<lambda>h'.
     assign_keys h' target source ks))"

definition object_assign :: "heap \<Rightarrow> val \<Rightarrow> val \<Rightarrow> error + heap" where
  "object_assign h target source =
     (if target = VUndef \<or> target = VNull then Inl TypeError
      else if source = VUndef \<or> source = VNull then Inr h
      else bindE (own_keys h source) (assign_keys h target source))"

text \<open>
  The \<open>forEach\<close> of \<open>updateConfigPath\<close> over the reversed segments: every segment but
  the last wraps the value in a new single-key object, the last one is written into
  the document root.
\<close>

fun update_loop :: "store \<Rightarrow> heap \<Rightarrow> val \<Rightarrow> string list \<Rightarrow> error + heap" where
  "update_loop s h values [] = Inr h"
| "update_loop s h values [p] = set_prop h (config s) p values"
| "update_loop s h values (p # ps) =
     (case alloc h (Mapping [(p, values)]) of (a, h') \<Rightarrow> update_loop s h' (VRef a) ps)"

definition updateConfigPath ::
  "store \<Rightarrow> fs \<Rightarrow> heap \<Rightarrow> string \<Rightarrow> val \<Rightarrow> error + (val \<times> heap \<times> fs)" where
  "updateConfigPath s f h path values =
     bindE (getOrCreateConfigPath s h path) (\<lambda>r0.
     bindE (if path \<noteq> [] then update_loop s (snd r0) values (rev (split_dot path))
            else object_assign (snd r0) (config s) values) (\<lambda>h1.
     bindE (saveConfig s f h1) (\<lambda>f'.
     bindE (getOrCreateConfigPath s h1 path) (\<lambda>r.
     Inr (fst r, snd r, f')))))"

subsection \<open>Section registration\<close>

fun wrap_path :: "heap \<Rightarrow> val \<Rightarrow> string list \<Rightarrow> val \<times> heap" where
  "wrap_path h root [] = (root, h)"
| "wrap_path h root (p # ps) =
     (case alloc h (Mapping [(p, root)]) of (a, h') \<Rightarrow> wrap_path h' (VRef a) ps)"

definition addDefaultConfig :: "nat \<Rightarrow> store \<Rightarrow> heap \<Rightarrow> string \<Rightarrow> val \<Rightarrow> error + heap" where
  "addDefaultConfig lim s h path dflt =
     bindE (validatePath path) (\<lambda>u.
     case wrap_path h dflt (rev (split_dot path)) of (root, h1) \<Rightarrow>
     bindE (mergeConfigs lim h1 (defaultConfig s) [root]) (\<lambda>r. Inr (snd r)))"

definition configSection ::
  "nat \<Rightarrow> store \<Rightarrow> fs \<Rightarrow> heap \<Rightarrow> string \<Rightarrow> val \<Rightarrow> error + (val \<times> heap \<times> fs)" where
  "configSection lim s f h path dflt =
     bindE (getOrCreateConfigPath s h path) (\<lambda>r0.
     if fst r0 = dflt then Inr (fst r0, snd r0, f)
     else
       bindE (addDefaultConfig lim s (snd r0) path dflt) (\<lambda>h2.
       case (if truthy (fst r0) then (fst r0, h2)
             else (case alloc h2 (Mapping []) of (a, h') \<Rightarrow> (VRef a, h'))) of (src, h3) \<Rightarrow>
       bindE (mergeConfigs lim h3 dflt [src]) (\<lambda>m.
       updateConfigPath s f (snd m) path (fst m))))"

subsection \<open>Three-way validation\<close>

text \<open>
  \<open>ConfigValidation\<close>: \<open>created\<close> is \<open>true\<close> or the list of new keys; a wrong type is
  the triple of path, expected and actual. \<open>walk\<close> holds the three lists that the
  closure \<open>resolve\<close> appends to. \<open>resolve_keys\<close> is its loop over
  \<open>Object.keys(conf)\<close>; the second operand of \<open>&&\<close> is read only when the first
  holds, and \<open>oldConf[key] || {}\<close> allocates the empty object when it is needed.
\<close>

datatype created_field = CreatedTrue | CreatedKeys "string list"

record ConfigValidation =
  v_created :: created_field
  wrongTypes :: "(string \<times> string \<times> string) list"
  unusedValues :: "string list"

record walk =
  w_created :: "string list"
  w_unused :: "string list"
  w_wrong :: "(string \<times> string \<times> string) list"

fun resolve ::
    "nat \<Rightarrow> bool \<Rightarrow> heap \<Rightarrow> walk \<Rightarrow> bool \<Rightarrow> string \<Rightarrow> val \<Rightarrow> val \<Rightarrow> val \<Rightarrow> error + (walk \<times> heap)"
  and resolve_keys ::
    "nat \<Rightarrow> bool \<Rightarrow> heap \<Rightarrow> walk \<Rightarrow> bool \<Rightarrow> string \<Rightarrow> val \<Rightarrow> val \<Rightarrow> val \<Rightarrow> string list
       \<Rightarrow> error + (walk \<times> heap)"
where
  "resolve 0 clr h w firstLevel path conf oldConf defConf = Inl StackOverflow"
| "resolve (Suc n) clr h w firstLevel path conf oldConf defConf =
     bindE (own_keys h conf) (\<lambda>keys.
     resolve_keys n clr h w firstLevel path conf oldConf defConf keys)"
| "resolve_keys n clr h w firstLevel path conf oldConf defConf [] = Inr (w, h)"
| "resolve_keys n clr h w firstLevel path conf oldConf defConf (key # keys) =
     (let propKey = (if firstLevel then key else path @ ''.'' @ key) in
      bindE (get_prop h oldConf key) (\<lambda>ov.
      let w1 = (if ov = VUndef then w\<lparr>w_created := w_created w @ [propKey]\<rparr> else w) in
      bindE (get_prop h conf key) (\<lambda>cv.
      bindE (get_prop h defConf key) (\<lambda>dv.
      bindE (if typeof cv \<noteq> typeof dv then
               (if typeof dv = ''undefined'' then
                  bindE (if clr then delete_prop h conf key else Inr h) (\<lambda>h'.
                  Inr (w1\<lparr>w_unused := w_unused w1 @ [propKey]\<rparr>, h'))
                else Inr (w1\<lparr>w_wrong := w_wrong w1 @ [(propKey, typeof dv, typeof cv)]\<rparr>, h))
             else Inr (w1, h)) (\<lambda>r2.
      bindE (get_prop (snd r2) conf key) (\<lambda>cv2.
      bindE (if typeof cv2 = ''object'' then get_prop (snd r2) defConf key else Inr VUndef) (\<lambda>dv2.
      bindE (if typeof cv2 = ''object'' \<and> typeof dv2 = ''object'' then
               bindE (get_prop (snd r2) oldConf key) (\<lambda>ov2.
               case (if truthy ov2 then (ov2, snd r2)
                     else (case alloc (snd r2) (Mapping []) of (a, h') \<Rightarrow> (VRef a, h'))) of
                 (ov3, h3) \<Rightarrow> resolve n clr h3 (fst r2) False propKey cv2 ov3 dv2)
             else Inr r2) (\<lambda>r3.
      resolve_keys n clr (snd r3) (fst r3) firstLevel path conf oldConf defConf keys))))))))"

definition validateConfig ::
  "nat \<Rightarrow> store \<Rightarrow> fs \<Rightarrow> heap \<Rightarrow> bool \<Rightarrow> error + (ConfigValidation \<times> heap \<times> fs)" where
  "validateConfig lim s f h clearUnusedValues =
     bindE (resolve lim clearUnusedValues h \<lparr>w_created = [], w_unused = [], w_wrong = []\<rparr>
              True [] (config s) (oldConfig s) (defaultConfig s)) (\<lambda>r.
     bindE (if clearUnusedValues then saveConfig s f (snd r) else Inr f) (\<lambda>f'.
     Inr (\<lparr>v_created = (if created s then CreatedTrue else CreatedKeys (w_created (fst r))),
           wrongTypes = w_wrong (fst r), unusedValues = w_unused (fst r)\<rparr>, snd r, f')))"

section \<open>Client scenarios\<close>

text \<open>
  The programs that the properties below run. \<open>merge_docs\<close> builds a target and a
  source from two documents, merges the source into the target and reads the target
  back. \<open>section_scenario\<close> is \<open>cm = new ConfigManager(fileName)\<close> followed by
  \<open>cm.configSection(path, D)\<close> with the object literal \<open>D\<close>, in any heap; it gives
  the store, the reference to the literal and the outcome of the call.
\<close>

definition merge_docs :: "nat \<Rightarrow> jv \<Rightarrow> jv \<Rightarrow> error + jv option" where
  "merge_docs lim T S =
     (case alloc_tree [] T of (t, h1) \<Rightarrow>
      case alloc_tree h1 S of (s, h2) \<Rightarrow>
      bindE (mergeConfigs lim h2 t [s]) (\<lambda>r. stringify (snd r) (fst r)))"

definition section_scenario ::
  "nat \<Rightarrow> fs \<Rightarrow> heap \<Rightarrow> string \<Rightarrow> string \<Rightarrow> jv \<Rightarrow> store \<times> val \<times> (error + (val \<times> heap \<times> fs))" where
  "section_scenario lim f h0 fileName path D =
     (case constructor lim f h0 fileName of (s, h) \<Rightarrow>
      case alloc_tree h D of (d, h1) \<Rightarrow>
      (s, d, configSection lim s f h1 path d))"

section \<open>Notions used in the proofs\<close>

text \<open>
  \<open>chain_at n h c ps v\<close>: from \<open>c\<close>, the segments \<open>ps\<close> lead through single-key
  objects at addresses from \<open>n\<close> on to the value \<open>v\<close>.
\<close>

fun chain_at :: "nat \<Rightarrow> heap \<Rightarrow> val \<Rightarrow> string list \<Rightarrow> val \<Rightarrow> bool" where
  "chain_at n h c [] v = (c = v)"
| "chain_at n h c (p # ps) v =
     (case c of
        VRef a \<Rightarrow> n \<le> a \<and> a < length h \<and> (\<exists>c'. h ! a = Mapping [(p, c')] \<and> chain_at n h c' ps v)
      | _ \<Rightarrow> False)"

text \<open>
  How a document lies in the heap. \<open>frep F h v T\<close>: the value \<open>v\<close> is the tree
  \<open>T\<close>, built from cells of \<open>F\<close> only (cells that the operation at hand leaves
  alone). \<open>tgtp F h v T sp\<close>: \<open>v\<close> is the tree \<open>T\<close>, its mappings along
  mapping-only paths are the cells \<open>sp\<close>, none of them in \<open>F\<close>, and what lies
  below an array is in \<open>F\<close>; when \<open>sp\<close> has no repetition, no two paths of
  mappings share a cell. \<open>depth\<close> is the nesting depth of a tree (0 for a scalar),
  \<open>tsize\<close> the number of its arrays and mappings.
\<close>

fun frep :: "addr set \<Rightarrow> heap \<Rightarrow> val \<Rightarrow> jv \<Rightarrow> bool"
  and frep_elems :: "addr set \<Rightarrow> heap \<Rightarrow> val option list \<Rightarrow> jv list \<Rightarrow> bool"
  and frep_props :: "addr set \<Rightarrow> heap \<Rightarrow> (string \<times> val) list \<Rightarrow> (string \<times> jv) list \<Rightarrow> bool"
where
  "frep F h v JNull = (v = VNull)"
| "frep F h v (JBool b) = (v = VBool b)"
| "frep F h v (JNum n) = (v = VNum n)"
| "frep F h v (JStr s) = (v = VStr s)"
| "frep F h v (JArr xs) =
     (\<exists>a es. v = VRef a \<and> a \<in> F \<and> a < length h \<and> h ! a = Arr es [] \<and> frep_elems F h es xs)"
| "frep F h v (JObj kvs) =
     (\<exists>a ps. v = VRef a \<and> a \<in> F \<and> a < length h \<and> h ! a = Mapping ps \<and> frep_props F h ps kvs)"
| "frep_elems F h es [] = (es = [])"
| "frep_elems F h es (x # xs) =
     (\<exists>w es'. es = Some w # es' \<and> frep F h w x \<and> frep_elems F h es' xs)"
| "frep_props F h ps [] = (ps = [])"
| "frep_props F h ps (kv # kvs) =
     (\<exists>v ps'. ps = (fst kv, v) # ps' \<and> frep F h v (snd kv) \<and> frep_props F h ps' kvs)"

fun tgtp :: "addr set \<Rightarrow> heap \<Rightarrow> val \<Rightarrow> jv \<Rightarrow> addr list \<Rightarrow> bool"
  and tgt_props :: "addr set \<Rightarrow> heap \<Rightarrow> (string \<times> val) list \<Rightarrow> (string \<times> jv) list \<Rightarrow> addr list \<Rightarrow> bool"
where
  "tgtp F h v JNull sp = (v = VNull \<and> sp = [])"
| "tgtp F h v (JBool b) sp = (v = VBool b \<and> sp = [])"
| "tgtp F h v (JNum n) sp = (v = VNum n \<and> sp = [])"
| "tgtp F h v (JStr s) sp = (v = VStr s \<and> sp = [])"
| "tgtp F h v (JArr xs) sp = (frep F h v (JArr xs) \<and> sp = [])"
| "tgtp F h v (JObj kvs) sp =
     (\<exists>a ps sp'. v = VRef a \<and> a \<notin> F \<and> a < length h \<and> h ! a = Mapping ps \<and> sp = a # sp'
        \<and> tgt_props F h ps kvs sp')"
| "tgt_props F h ps [] sp = (ps = [] \<and> sp = [])"
| "tgt_props F h ps (kv # kvs) sp =
     (\<exists>v ps' s1 s2. ps = (fst kv, v) # ps' \<and> sp = s1 @ s2 \<and> tgtp F h v (snd kv) s1
        \<and> tgt_props F h ps' kvs s2)"

fun depth :: "jv \<Rightarrow> nat"
  and depth_elems :: "jv list \<Rightarrow> nat"
  and depth_props :: "(string \<times> jv) list \<Rightarrow> nat"
where
  "depth (JArr xs) = Suc (depth_elems xs)"
| "depth (JObj kvs) = Suc (depth_props kvs)"
| "depth t = 0"
| "depth_elems [] = 0"
| "depth_elems (x # xs) = max (depth x) (depth_elems xs)"
| "depth_props [] = 0"
| "depth_props (kv # kvs) = max (depth (snd kv)) (depth_props kvs)"


fun tsize :: "jv \<Rightarrow> nat"
  and tsize_elems :: "jv list \<Rightarrow> nat"
  and tsize_props :: "(string \<times> jv) list \<Rightarrow> nat"
where
  "tsize (JArr xs) = Suc (tsize_elems xs)"
| "tsize (JObj kvs) = Suc (tsize_props kvs)"
| "tsize t = 0"
| "tsize_elems [] = 0"
| "tsize_elems (x # xs) = tsize x + tsize_elems xs"
| "tsize_props [] = 0"
| "tsize_props (kv # kvs) = tsize (snd kv) + tsize_props kvs"

fun is_mapping :: "jv \<Rightarrow> bool" where
  "is_mapping (JObj kvs) = True"
| "is_mapping t = False"

section \<open>Documents as trees\<close>

text \<open>
  What the operations do to the tree that an object holds, for the statement of the
  property of \<open>configSection\<close>.

  \<open>jmerge T S\<close> is the tree of the target after \<open>mergeConfigs(target, source)\<close>, when
  the target holds \<open>T\<close> and the source \<open>S\<close>. It follows \<open>ConfigMerger.ts\<close>: unless
  both are plain objects the target is unchanged; otherwise the keys of the source are
  taken in order, and for a key whose source value is a plain object the target's value
  is first replaced by \<open>{}\<close> if it is missing or falsy (\<open>jfalsy\<close>: \<open>null\<close>, \<open>false\<close>,
  \<open>0\<close>, the empty string) and then merged into, while any other source value is
  written over the target's. A truthy scalar or an array in the target is therefore
  kept when the source has a plain object under the same key.

  \<open>jfind T segs\<close> is the tree that \<open>getOrCreateConfigPath\<close> returns when the document
  holds \<open>T\<close>: at each segment a value that is missing or whose \<open>typeof\<close> is not
  \<open>'object'\<close> (\<open>jobject\<close> tells an object, an array or \<open>null\<close> from the rest) is
  replaced by \<open>{}\<close> (\<open>jchild\<close>); it is \<open>None\<close> when a segment is looked up in \<open>null\<close>
  or in an array. \<open>jcreate T segs\<close> is the document after that walk, and
  \<open>jchain segs T\<close> is the nesting \<open>{p1: {p2: ... T}}\<close> that \<open>updateConfigPath\<close> and
  \<open>addDefaultConfig\<close> build.

  \<open>jwf\<close> delimits the documents on which the heap model is JavaScript: no plain object
  has the same key twice, every key is plain (\<open>plain_key\<close>: not the name of a member of
  \<open>Object.prototype\<close>, which the model does not have, and not a string of digits, which
  JavaScript would enumerate before the other keys), and every number is an integer that
  a JavaScript number holds exactly.

  \<open>agree A h h'\<close>: the heap \<open>h'\<close> extends \<open>h\<close> and has the cells of \<open>A\<close> unchanged.
\<close>

fun jfalsy :: "jv \<Rightarrow> bool" where
  "jfalsy JNull = True"
| "jfalsy (JBool b) = (\<not> b)"
| "jfalsy (JNum n) = (n = 0)"
| "jfalsy (JStr s) = (s = [])"
| "jfalsy t = False"

fun jmerge :: "jv \<Rightarrow> jv \<Rightarrow> jv"
  and jmerge_props :: "(string \<times> jv) list \<Rightarrow> (string \<times> jv) list \<Rightarrow> (string \<times> jv) list"
where
  "jmerge (JObj tk) (JObj sk) = JObj (jmerge_props tk sk)"
| "jmerge t s = t"
| "jmerge_props tk [] = tk"
| "jmerge_props tk ((k, sv) # sk) =
     jmerge_props
       (AList.update k
          (if is_mapping sv
           then jmerge (case map_of tk k of None \<Rightarrow> JObj []
                        | Some tv \<Rightarrow> if jfalsy tv then JObj [] else tv) sv
           else sv) tk) sk"

definition proto_names :: "string list" where
  "proto_names =
     [''__proto__'', ''constructor'', ''hasOwnProperty'', ''isPrototypeOf'',
      ''propertyIsEnumerable'', ''toLocaleString'', ''toString'', ''valueOf'',
      ''__defineGetter__'', ''__defineSetter__'', ''__lookupGetter__'', ''__lookupSetter__'']"

definition plain_key :: "string \<Rightarrow> bool" where
  "plain_key k = (k \<notin> set proto_names \<and> \<not> (k \<noteq> [] \<and> list_all is_digit k))"

fun jwf :: "jv \<Rightarrow> bool"
  and jwf_elems :: "jv list \<Rightarrow> bool"
  and jwf_props :: "(string \<times> jv) list \<Rightarrow> bool"
where
  "jwf (JArr xs) = jwf_elems xs"
| "jwf (JObj kvs) = (distinct (map fst kvs) \<and> list_all plain_key (map fst kvs) \<and> jwf_props kvs)"
| "jwf (JNum n) = (\<bar>n\<bar> \<le> 9007199254740991)"
| "jwf t = True"
| "jwf_elems [] = True"
| "jwf_elems (x # xs) = (jwf x \<and> jwf_elems xs)"
| "jwf_props [] = True"
| "jwf_props (kv # kvs) = (jwf (snd kv) \<and> jwf_props kvs)"

fun jobject :: "jv \<Rightarrow> bool" where
  "jobject JNull = True"
| "jobject (JArr xs) = True"
| "jobject (JObj kvs) = True"
| "jobject t = False"

definition jchild :: "(string \<times> jv) list \<Rightarrow> string \<Rightarrow> jv" where
  "jchild tk p = (case map_of tk p of None \<Rightarrow> JObj []
                  | Some v \<Rightarrow> if jobject v then v else JObj [])"

fun jcreate :: "jv \<Rightarrow> string list \<Rightarrow> jv" where
  "jcreate (JObj tk) (p # ps) = JObj (AList.update p (jcreate (jchild tk p) ps) tk)"
| "jcreate T ps = T"

fun jfind :: "jv \<Rightarrow> string list \<Rightarrow> jv option" where
  "jfind T [] = Some T"
| "jfind (JObj tk) (p # ps) = jfind (jchild tk p) ps"
| "jfind T (p # ps) = None"

fun jchain :: "string list \<Rightarrow> jv \<Rightarrow> jv" where
  "jchain [] T = T"
| "jchain (p # ps) T = JObj [(p, jchain ps T)]"

definition agree :: "addr set \<Rightarrow> heap \<Rightarrow> heap \<Rightarrow> bool" where
  "agree A h h' = (length h \<le> length h' \<and> (\<forall>x\<in>A. x < length h \<longrightarrow> h' ! x = h ! x))"

section \<open>Properties\<close>

lemma bindE_simps [simp]:
  "bindE (Inl e) g = Inl e"
  "bindE (Inr x) g = g x"
  by (simp_all add: bindE_def)

lemmas js_defs =
  alloc_def cell_def isObject_def lookup_prop_def elem_at_def stringify_def

lemmas store_defs =
  constructor_def section_scenario_def saveConfig_def getOrCreateConfigPath_def
  updateConfigPath_def addDefaultConfig_def configSection_def validateConfig_def
  object_assign_def validatePath_def test_chars_def test_boundary_def path_char_def

subsection \<open>Path validation\<close>

lemma validatePath_InvalidPathCharacter_iff:
  "validatePath path = Inl (InvalidPathCharacter q)
     \<longleftrightarrow> path \<noteq> [] \<and> q = path \<and> \<not> list_ex path_char path"
  by (auto simp: validatePath_def test_chars_def)

text \<open>
  C2. The claim: a non-empty path fails with \<open>InvalidPathCharacter\<close> exactly when it
  does not match the character class in full, and \<open>"A B"\<close> fails so. The code's first
  regular expression is not anchored, so one admissible character is enough: the path
  \<open>"A B"\<close> passes all three checks and \<open>validatePath\<close> returns normally.
\<close>

theorem validatePath_accepts_space: "validatePath ''A B'' = Inr ()"
  by (simp add: store_defs)

subsection \<open>Deep merge on examples\<close>

text \<open>
  C7. Precedence of the deep merge on the three examples, for every stack limit that
  leaves room for the calls: a key of the source replaces the target's, nested
  mappings are merged key by key, and an array of the source replaces the target's
  array as a whole.
\<close>

theorem mergeConfigs_precedence:
  "merge_docs (Suc (Suc (Suc n))) (JObj [(''a'', JNum 1), (''b'', JNum 2)]) (JObj [(''b'', JNum 3)])
     = Inr (Some (JObj [(''a'', JNum 1), (''b'', JNum 3)]))
   \<and> merge_docs (Suc (Suc (Suc n))) (JObj [(''a'', JObj [(''x'', JNum 1), (''y'', JNum 2)])])
       (JObj [(''a'', JObj [(''y'', JNum 3)])])
     = Inr (Some (JObj [(''a'', JObj [(''x'', JNum 1), (''y'', JNum 3)])]))
   \<and> merge_docs (Suc (Suc (Suc n))) (JObj [(''a'', JArr [JNum 1, JNum 2])])
       (JObj [(''a'', JArr [JNum 3])])
     = Inr (Some (JObj [(''a'', JArr [JNum 3])]))"
  by (simp add: merge_docs_def js_defs)

text \<open>
  C6. The claim: a mapping in the source always ends up merged at its key, whatever
  the target held there. The code creates the mapping only where the target's value
  is falsy; a truthy value that is not a mapping (here the number 1) stays, because
  the nested call returns at once on a target that is not a mapping, and the source's
  mapping is dropped. A falsy scalar in the same place is replaced.
\<close>

theorem mergeConfigs_keeps_truthy_scalar:
  "merge_docs (Suc (Suc (Suc n))) (JObj [(''a'', JNum 1)]) (JObj [(''a'', JObj [(''x'', JNum 2)])])
     = Inr (Some (JObj [(''a'', JNum 1)]))"
  by (simp add: merge_docs_def js_defs)

lemma mergeConfigs_replaces_falsy_scalar:
  "merge_docs (Suc (Suc (Suc n))) (JObj [(''a'', JNum 0)]) (JObj [(''a'', JObj [(''x'', JNum 2)])])
     = Inr (Some (JObj [(''a'', JObj [(''x'', JNum 2)])]))"
  by (simp add: merge_docs_def js_defs)

subsection \<open>Sections on examples\<close>

text \<open>
  C1. For every store opened over a file that holds \<open>{"DB":{"host":"127.0.0.1"}}\<close>
  (any file name, any other files, any heap, any stack limit with room for the calls),
  \<open>configSection("DB", {host:"localhost", port:27017})\<close> returns a value that reads
  \<open>{host:"127.0.0.1", port:27017}\<close>: the stored \<open>host\<close> is kept and the missing
  \<open>port\<close> comes from the defaults. The file then holds that value under \<open>DB\<close>, and
  the document has the returned object at the path.
\<close>

theorem configSection_stored_override:
  "(case section_scenario (Suc (Suc (Suc n)))
           (f(fileName \<mapsto> Json (JObj [(''DB'', JObj [(''host'', JStr ''127.0.0.1'')])])))
           h0 fileName ''DB'' (JObj [(''host'', JStr ''localhost''), (''port'', JNum 27017)]) of
      (s, d, res) \<Rightarrow>
        (case res of
           Inl e \<Rightarrow> False
         | Inr (r, h, f') \<Rightarrow>
             stringify h r
               = Inr (Some (JObj [(''host'', JStr ''127.0.0.1''), (''port'', JNum 27017)]))
             \<and> f' fileName
               = Some (Json (JObj [(''DB'',
                   JObj [(''host'', JStr ''127.0.0.1''), (''port'', JNum 27017)])]))
             \<and> getOrCreateConfigPath s h ''DB'' = Inr (r, h)
             \<and> stringify h (config s)
               = Inr (Some (JObj [(''DB'',
                   JObj [(''host'', JStr ''127.0.0.1''), (''port'', JNum 27017)])]))))"
  by (simp add: store_defs js_defs nth_append list_update_append)

text \<open>
  C3. The claim: after a file that does not parse, the store works on an empty
  document and later operations behave as on an empty document. In the code the
  constructor does not throw and stores the error, but \<open>config\<close> is only assigned
  when the parse succeeds or the file is absent: it stays \<open>undefined\<close>, and
  \<open>configSection\<close>, \<open>getOrCreateConfigPath\<close>, \<open>updateConfigPath\<close> and
  \<open>validateConfig\<close> all throw a \<open>TypeError\<close>.
\<close>

theorem unparsable_file_config_undefined:
  "(case constructor lim (f(fileName \<mapsto> Malformed)) h0 fileName of
      (s, h) \<Rightarrow>
        configFileLoadingError s = Some SyntaxError
        \<and> config s = VUndef
        \<and> getOrCreateConfigPath s h ''X'' = Inl TypeError
        \<and> updateConfigPath s (f(fileName \<mapsto> Malformed)) h ''X'' v = Inl TypeError
        \<and> validateConfig (Suc n) s (f(fileName \<mapsto> Malformed)) h clr = Inl TypeError
        \<and> (case alloc_tree h (JObj [(''host'', JStr ''localhost'')]) of
             (d, h1) \<Rightarrow>
               configSection lim s (f(fileName \<mapsto> Malformed)) h1 ''DB'' d = Inl TypeError))"
  by (simp add: store_defs js_defs)

text \<open>
  C4. The claim: \<open>configSection("", defaults)\<close> merges the keys of the defaults at
  the root of the defaults tree, as \<open>updateConfigPath\<close> does in the document, so that
  validation reports none of them as unused. \<open>addDefaultConfig\<close> has no case for the
  empty path: it splits it into the single segment \<open>""\<close> and registers the defaults
  under that key. On a new store, after \<open>configSection("", {a:1})\<close> the document is
  \<open>{a:1}\<close>, the defaults tree is \<open>{"":{a:1}}\<close>, and validation reports \<open>a\<close> as
  unused.
\<close>

theorem empty_path_defaults_under_empty_key:
  "(case section_scenario (Suc (Suc (Suc n))) (f(fileName := None)) h0 fileName
           [] (JObj [(''a'', JNum 1)]) of
      (s, d, res) \<Rightarrow>
        (case res of
           Inl e \<Rightarrow> False
         | Inr (r, h, f') \<Rightarrow>
             stringify h (config s) = Inr (Some (JObj [(''a'', JNum 1)]))
             \<and> stringify h (defaultConfig s) = Inr (Some (JObj [([], JObj [(''a'', JNum 1)])]))
             \<and> (case validateConfig (Suc (Suc (Suc n))) s f' h False of
                  Inl e \<Rightarrow> False
                | Inr (v, h', f'') \<Rightarrow> unusedValues v = [''a''])))"
  by (simp add: store_defs js_defs nth_append list_update_append Let_def)

text \<open>
  C5. The claim: at a segment whose value is a scalar, \<open>null\<close> or an array,
  \<open>getOrCreateConfigPath\<close> puts an empty mapping and always returns the mapping at
  the last segment. The code tests \<open>typeof root[p] !== 'object'\<close>, which \<open>null\<close>
  passes: over a file holding \<open>{"X":null}\<close>, the path \<open>X\<close> gives \<open>null\<close> back and
  changes nothing, and the path \<open>X.Y\<close> throws a \<open>TypeError\<close> at the read of
  \<open>null["Y"]\<close>.
\<close>

theorem getOrCreate_null_segment:
  "(case constructor lim (f(fileName \<mapsto> Json (JObj [(''X'', JNull)]))) h0 fileName of
      (s, h) \<Rightarrow>
        getOrCreateConfigPath s h ''X'' = Inr (VNull, h)
        \<and> getOrCreateConfigPath s h ''X.Y'' = Inl TypeError)"
  by (cases lim; cases "lim - 1")
     (simp_all add: store_defs js_defs nth_append list_update_append)

lemma getOrCreate_array_segment:
  "(case constructor lim (f(fileName \<mapsto> Json (JObj [(''X'', JArr [JNum 1])]))) h0 fileName of
      (s, h) \<Rightarrow>
        (case getOrCreateConfigPath s h ''X'' of
           Inl e \<Rightarrow> False
         | Inr (r, h') \<Rightarrow> h' = h \<and> isArray h r))"
  by (cases lim; cases "lim - 1")
     (simp_all add: store_defs js_defs nth_append list_update_append)

lemma getOrCreate_empty_document:
  "(case constructor lim (f(fileName := None)) h0 fileName of
      (s, h) \<Rightarrow>
        (case getOrCreateConfigPath s h ''X.Y'' of
           Inl e \<Rightarrow> False
         | Inr (r, h') \<Rightarrow>
             stringify h' (config s) = Inr (Some (JObj [(''X'', JObj [(''Y'', JObj [])])]))
             \<and> stringify h' r = Inr (Some (JObj []))
             \<and> (case get_prop h' (config s) ''X'' of
                  Inl e \<Rightarrow> False
                | Inr x \<Rightarrow> get_prop h' x ''Y'' = Inr r)))"
  by (simp add: store_defs js_defs nth_append list_update_append)

subsection \<open>The object that \<open>configSection\<close> installs\<close>

lemma mergeConfigs_returns_target:
  "mergeConfigs n h t ss = Inr r \<Longrightarrow> fst r = t"
proof (induction n arbitrary: h ss)
  case 0
  then show ?case by simp
next
  case (Suc n)
  show ?case
  proof (cases ss)
    case Nil
    with Suc.prems show ?thesis by auto
  next
    case (Cons a list)
    with Suc.prems Suc.IH show ?thesis
      by (auto simp: bindE_def split: if_splits sum.splits)
  qed
qed

lemma walk_create_append:
  "walk_create h r (xs @ ys) = bindE (walk_create h r xs) (\<lambda>p. walk_create (snd p) (fst p) ys)"
  by (induction xs arbitrary: h r) (auto simp: bindE_def split: sum.splits)

lemma chain_at_walk:
  "chain_at n h c ps (VRef d) \<Longrightarrow> walk_create h c ps = Inr (VRef d, h)"
proof (induction ps arbitrary: c)
  case Nil
  then show ?case by simp
next
  case (Cons p ps)
  then obtain a c' where c: "c = VRef a" "a < length h" "h ! a = Mapping [(p, c')]"
      "chain_at n h c' ps (VRef d)"
    by (auto split: val.splits)
  have "typeof c' = ''object''"
    using c(4) by (cases ps) (auto split: val.splits)
  with c Cons.IH[OF c(4)] show ?case
    by (simp add: cell_def lookup_prop_def)
qed

lemma chain_at_append:
  "chain_at n h c xs m \<Longrightarrow> chain_at n h m ys v \<Longrightarrow> chain_at n h c (xs @ ys) v"
  by (induction xs arbitrary: c) (auto split: val.splits)

lemma chain_at_mono:
  "chain_at n h c xs v \<Longrightarrow> m \<le> n \<Longrightarrow> chain_at m h c xs v"
  by (induction xs arbitrary: c) (auto split: val.splits)

lemma chain_at_extend:
  "chain_at n h c xs v \<Longrightarrow> chain_at n (h @ new) c xs v"
  by (induction xs arbitrary: c) (auto split: val.splits simp: nth_append)

lemma chain_at_update:
  "chain_at n h c xs v \<Longrightarrow> a0 < n \<Longrightarrow> chain_at n (h[a0 := ob]) c xs v"
  by (induction xs arbitrary: c) (auto split: val.splits)

lemma wrap_path_chain:
  "wrap_path h v qs = (c, hc) \<Longrightarrow> (\<exists>new. hc = h @ new) \<and> chain_at (length h) hc c (rev qs) v"
proof (induction qs arbitrary: h v)
  case Nil
  then show ?case by simp
next
  case (Cons q qs)
  let ?h1 = "h @ [Mapping [(q, v)]]"
  from Cons.prems have w: "wrap_path ?h1 (VRef (length h)) qs = (c, hc)"
    by (simp add: alloc_def)
  from Cons.IH[OF w] obtain new where hc: "hc = ?h1 @ new"
    and ch: "chain_at (length ?h1) hc c (rev qs) (VRef (length h))" by auto
  have ch': "chain_at (length h) hc c (rev qs) (VRef (length h))"
    using chain_at_mono[OF ch] by simp
  have last: "chain_at (length h) hc (VRef (length h)) [q] v"
    using hc by (simp add: nth_append)
  from chain_at_append[OF ch' last] hc show ?case by simp
qed

lemma update_loop_wrap:
  "qs \<noteq> [] \<Longrightarrow>
   update_loop s h v qs =
     (case wrap_path h v (butlast qs) of (c, hc) \<Rightarrow> set_prop hc (config s) (last qs) c)"
  by (induction s h v qs rule: update_loop.induct) (auto simp: alloc_def split: prod.splits)

lemma get_after_set:
  assumes "set_prop h (VRef c0) k (VRef a) = Inr h'"
  shows "get_prop h' (VRef c0) k = Inr (VRef a)"
proof -
  from assms obtain ob where ob: "c0 < length h" "h ! c0 = ob"
    by (auto simp: cell_def split: if_splits)
  from assms ob obtain ob' where ob': "set_obj h ob k (VRef a) = Inr ob'" "h' = h[c0 := ob']"
    by (auto simp: cell_def bindE_def split: sum.splits)
  have "get_obj ob' k = VRef a"
  proof (cases ob)
    case (Mapping ps)
    with ob' show ?thesis by (auto simp: lookup_prop_def AList.update_conv')
  next
    case (Arr es ns)
    with ob' show ?thesis
      by (auto simp: lookup_prop_def AList.update_conv' elem_at_def nth_append bindE_def
               split: if_splits sum.splits option.splits obj.splits)
  qed
  with ob ob' show ?thesis by (simp add: cell_def)
qed

lemma set_prop_result:
  "set_prop h r k v = Inr h' \<Longrightarrow> \<exists>c0 ob'. r = VRef c0 \<and> c0 < length h \<and> h' = h[c0 := ob']"
  by (cases r) (auto simp: cell_def bindE_def split: if_splits sum.splits)

lemma walk_create_length:
  "walk_create h r ps = Inr x \<Longrightarrow> length h \<le> length (snd x)"
proof (induction ps arbitrary: h r)
  case Nil
  then show ?case by auto
next
  case (Cons p ps)
  from Cons.prems obtain v h1 r1 where
    s1: "(if typeof v \<noteq> ''object''
          then (case alloc h (Mapping []) of (a, h0) \<Rightarrow> set_prop h0 r p (VRef a))
          else Inr h) = Inr h1"
    and s2: "walk_create h1 r1 ps = Inr x"
    by (auto simp: bindE_def split: sum.splits)
  have "length h \<le> length h1"
    using s1 by (auto simp: alloc_def split: if_splits dest!: set_prop_result)
  with Cons.IH[OF s2] show ?case by simp
qed

lemma walk_create_root:
  "walk_create h root (p # ps) = Inr x \<Longrightarrow> \<exists>c0. root = VRef c0 \<and> c0 < length h"
  by (cases root)
     (auto simp: bindE_def cell_def alloc_def split: sum.splits if_splits)

lemma split_dot_nonempty: "split_dot path \<noteq> []"
  by (induction path) (auto split: list.splits)

lemma updateConfigPath_installs:
  assumes upd: "updateConfigPath s f h path (VRef d) = Inr (r, h', f')" and ne: "path \<noteq> []"
  shows "r = VRef d \<and> getOrCreateConfigPath s h' path = Inr (VRef d, h')"
proof -
  from upd ne obtain r0 ha hb where
    g0: "getOrCreateConfigPath s h path = Inr (r0, ha)"
    and ul: "update_loop s ha (VRef d) (rev (split_dot path)) = Inr hb"
    and g1: "getOrCreateConfigPath s hb path = Inr (r, h')"
    by (auto simp: updateConfigPath_def bindE_def split: sum.splits)
  obtain p1 rest where segs: "split_dot path = p1 # rest"
    using split_dot_nonempty[of path] by (cases "split_dot path") auto
  from g0 ne segs have vp: "validatePath path = Inr ()"
    and w0: "walk_create h (config s) (p1 # rest) = Inr (r0, ha)"
    by (auto simp: getOrCreateConfigPath_def bindE_def split: sum.splits)
  from walk_create_root[OF w0] obtain c0 where c0: "config s = VRef c0" "c0 < length h"
    by auto
  from walk_create_length[OF w0] have len: "length h \<le> length ha" by simp
  obtain c hc where wp: "wrap_path ha (VRef d) (rev rest) = (c, hc)"
    by (cases "wrap_path ha (VRef d) (rev rest)") auto
  from ul segs wp c0 have sp: "set_prop hc (VRef c0) p1 c = Inr hb"
    by (simp add: update_loop_wrap)
  from wrap_path_chain[OF wp] have ch: "chain_at (length ha) hc c rest (VRef d)"
    by simp
  obtain a where c_ref: "c = VRef a"
    using ch by (cases rest) (auto split: val.splits)
  from set_prop_result[OF sp] obtain ob' where hb: "hb = hc[c0 := ob']" by auto
  have ch': "chain_at (length ha) hb c rest (VRef d)"
    unfolding hb using ch c0 len by (intro chain_at_update) auto
  have get: "get_prop hb (VRef c0) p1 = Inr c"
    using get_after_set sp c_ref by simp
  have "walk_create hb (VRef c0) (p1 # rest) = Inr (VRef d, hb)"
    using get c_ref chain_at_walk[OF ch'] by simp
  with vp ne segs c0 have "getOrCreateConfigPath s hb path = Inr (VRef d, hb)"
    by (simp add: getOrCreateConfigPath_def)
  with g1 show ?thesis by simp
qed

subsection \<open>Documents in the heap\<close>

lemma frep_frame:
  assumes "length h \<le> length h'" and "\<forall>a\<in>F. a < length h \<longrightarrow> h' ! a = h ! a"
  shows "frep F h v T \<Longrightarrow> frep F h' v T"
    and "frep_elems F h es xs \<Longrightarrow> frep_elems F h' es xs"
    and "frep_props F h ps kvs \<Longrightarrow> frep_props F h' ps kvs"
  using assms
  by (induction F h v T and F h es xs and F h ps kvs rule: frep_frep_elems_frep_props.induct)
     auto

lemma frep_mono:
  assumes "F \<subseteq> F'"
  shows "frep F h v T \<Longrightarrow> frep F' h v T"
    and "frep_elems F h es xs \<Longrightarrow> frep_elems F' h es xs"
    and "frep_props F h ps kvs \<Longrightarrow> frep_props F' h ps kvs"
  using assms
  by (induction F h v T and F h es xs and F h ps kvs rule: frep_frep_elems_frep_props.induct)
     auto

lemma tgtp_spine:
  shows "tgtp F h v T sp \<Longrightarrow> \<forall>a\<in>set sp. a \<notin> F \<and> a < length h"
    and "tgt_props F h ps kvs sp \<Longrightarrow> \<forall>a\<in>set sp. a \<notin> F \<and> a < length h"
  by (induction F h v T sp and F h ps kvs sp rule: tgtp_tgt_props.induct) auto

lemma tgtp_frame:
  assumes "length h \<le> length h'" and "\<forall>a\<in>F. a < length h \<longrightarrow> h' ! a = h ! a"
  shows "tgtp F h v T sp \<Longrightarrow> \<forall>a\<in>set sp. h' ! a = h ! a \<Longrightarrow> tgtp F h' v T sp"
    and "tgt_props F h ps kvs sp \<Longrightarrow> \<forall>a\<in>set sp. h' ! a = h ! a \<Longrightarrow> tgt_props F h' ps kvs sp"
  using assms
proof (induction F h v T sp and F h ps kvs sp rule: tgtp_tgt_props.induct)
  case (5 F h v xs sp)
  then show ?case using frep_frame(1)[of h h' F v "JArr xs"] by simp
next
  case (6 F h v kvs sp)
  then show ?case by auto
next
  case (8 F h ps kv kvs sp)
  then show ?case by (auto, blast)
qed auto


lemma frep_props_keys: "frep_props F h ps kvs \<Longrightarrow> map fst ps = map fst kvs"
  by (induction kvs arbitrary: ps) auto

lemma tgt_props_keys: "tgt_props F h ps kvs sp \<Longrightarrow> map fst ps = map fst kvs"
  by (induction kvs arbitrary: ps sp) auto

lemma frep_props_lookup:
  "frep_props F h ps kvs \<Longrightarrow> map_of kvs k = Some S \<Longrightarrow> \<exists>v. map_of ps k = Some v \<and> frep F h v S"
  by (induction kvs arbitrary: ps) (auto split: if_splits)

lemma nonobj_tgtp: "\<not> is_mapping T \<Longrightarrow> tgtp F h v T sp \<longleftrightarrow> frep F h v T \<and> sp = []"
  by (cases T) auto

lemma frep_isObject: "frep F h v T \<Longrightarrow> isObject h v = is_mapping T"
  by (cases T) (auto simp: isObject_def cell_def)

lemma tgtp_isObject: "tgtp F h v T sp \<Longrightarrow> isObject h v = is_mapping T"
  by (cases T) (auto simp: isObject_def cell_def)

lemma child_focus:
  "tgt_props F h ps kvs sp \<Longrightarrow> distinct sp \<Longrightarrow> map_of kvs k = Some Tk \<Longrightarrow>
   \<exists>tv sk. map_of ps k = Some tv \<and> tgtp F h tv Tk sk \<and> set sk \<subseteq> set sp \<and> distinct sk \<and>
     (\<forall>h1. length h \<le> length h1 \<longrightarrow> (\<forall>a<length h. a \<notin> set sk \<longrightarrow> h1 ! a = h ! a)
         \<longrightarrow> tgtp F h1 tv Tk sk \<longrightarrow> tgt_props F h1 ps kvs sp)"
proof (induction kvs arbitrary: ps sp)
  case Nil
  then show ?case by simp
next
  case (Cons kv kvs)
  from Cons.prems(1) obtain v ps' s1 s2 where
    ps: "ps = (fst kv, v) # ps'" and sp: "sp = s1 @ s2"
    and hd: "tgtp F h v (snd kv) s1" and tl: "tgt_props F h ps' kvs s2"
    by auto
  from Cons.prems(2) sp have d1: "distinct s1" and d2: "distinct s2"
    and dj: "set s1 \<inter> set s2 = {}" by auto
  note sp1 = tgtp_spine(1)[OF hd] and sp2 = tgtp_spine(2)[OF tl]
  show ?case
  proof (cases "fst kv = k")
    case True
    with Cons.prems(3) have Tk: "Tk = snd kv" by (cases kv) auto
    have "tgt_props F h1 ps (kv # kvs) sp"
      if len: "length h \<le> length h1"
        and fr: "\<forall>a<length h. a \<notin> set s1 \<longrightarrow> h1 ! a = h ! a"
        and new: "tgtp F h1 v Tk s1" for h1
    proof -
      have F: "\<forall>a\<in>F. a < length h \<longrightarrow> h1 ! a = h ! a" using fr sp1 by blast
      have "\<forall>a\<in>set s2. h1 ! a = h ! a" using fr sp2 dj by blast
      from tgtp_frame(2)[OF len F tl this] new Tk ps sp show ?thesis by auto
    qed
    with True ps hd Tk sp d1 show ?thesis by auto
  next
    case False
    with Cons.prems(3) have look: "map_of kvs k = Some Tk" by (cases kv) auto
    from Cons.IH[OF tl d2 look] obtain tv sk where
      tv: "map_of ps' k = Some tv" and tg: "tgtp F h tv Tk sk" and sub: "set sk \<subseteq> set s2"
      and dk: "distinct sk"
      and cl: "\<And>h1. length h \<le> length h1 \<Longrightarrow> (\<forall>a<length h. a \<notin> set sk \<longrightarrow> h1 ! a = h ! a)
         \<Longrightarrow> tgtp F h1 tv Tk sk \<Longrightarrow> tgt_props F h1 ps' kvs s2"
      by blast
    note spk = tgtp_spine(1)[OF tg]
    have "tgt_props F h1 ps (kv # kvs) sp"
      if len: "length h \<le> length h1"
        and fr: "\<forall>a<length h. a \<notin> set sk \<longrightarrow> h1 ! a = h ! a"
        and new: "tgtp F h1 tv Tk sk" for h1
    proof -
      have F: "\<forall>a\<in>F. a < length h \<longrightarrow> h1 ! a = h ! a" using fr spk by blast
      have "\<forall>a\<in>set s1. h1 ! a = h ! a" using fr sp1 dj sub by blast
      from tgtp_frame(1)[OF len F hd this] cl[OF len fr new] ps sp show ?thesis by auto
    qed
    with False ps tv tg sub sp dk show ?thesis by auto
  qed
qed

lemma replace_child:
  "tgt_props F h ps kvs sp \<Longrightarrow> map_of kvs k = Some Sk \<Longrightarrow> \<not> is_mapping Sk \<Longrightarrow> frep F h sv Sk
   \<Longrightarrow> tgt_props F h (AList.update k sv ps) kvs sp"
proof (induction kvs arbitrary: ps sp)
  case Nil
  then show ?case by simp
next
  case (Cons kv kvs)
  from Cons.prems(1) obtain v ps' s1 s2 where
    ps: "ps = (fst kv, v) # ps'" and sp: "sp = s1 @ s2"
    and hd: "tgtp F h v (snd kv) s1" and tl: "tgt_props F h ps' kvs s2"
    by auto
  show ?case
  proof (cases "fst kv = k")
    case True
    with Cons.prems(2) have Sk: "Sk = snd kv" by (cases kv) auto
    from hd Sk Cons.prems(3) have "s1 = []" by (simp add: nonobj_tgtp)
    moreover from Cons.prems(3,4) have "tgtp F h sv Sk []" by (simp add: nonobj_tgtp)
    ultimately show ?thesis using True ps sp tl Sk by auto
  next
    case False
    with Cons.prems(2) have look: "map_of kvs k = Some Sk" by (cases kv) auto
    from Cons.IH[OF tl look Cons.prems(3,4)] False ps sp hd show ?thesis by auto
  qed
qed


lemma depth_props_lookup: "map_of kvs k = Some T \<Longrightarrow> depth T \<le> depth_props kvs"
  by (induction kvs) (auto split: if_splits)

lemma merge_props_same:
  assumes IH: "\<And>h t s X sp. tgtp F h t X sp \<Longrightarrow> distinct sp \<Longrightarrow> frep F h s X \<Longrightarrow> depth X + 2 \<le> m
       \<Longrightarrow> \<exists>h'. mergeConfigs m h t [s] = Inr (t, h') \<and> tgtp F h' t X sp \<and> length h' = length h
              \<and> (\<forall>a. a \<notin> set sp \<longrightarrow> h' ! a = h ! a)"
    and a: "a \<notin> F" and b: "b \<in> F" and dist: "distinct (a # sp)"
    and fuel: "depth_props kvs + 2 \<le> m"
  shows "a < length h \<Longrightarrow> h ! a = Mapping ps \<Longrightarrow> tgt_props F h ps kvs sp
     \<Longrightarrow> b < length h \<Longrightarrow> h ! b = Mapping qs \<Longrightarrow> frep_props F h qs kvs
     \<Longrightarrow> set ks \<subseteq> fst ` set kvs
     \<Longrightarrow> \<exists>h' ps'. merge_props m h (VRef a) (VRef b) ks = Inr h' \<and> h' ! a = Mapping ps'
           \<and> tgt_props F h' ps' kvs sp \<and> length h' = length h
           \<and> (\<forall>x. x \<notin> set (a # sp) \<longrightarrow> h' ! x = h ! x)"
proof (induction ks arbitrary: h ps)
  case Nil
  then show ?case by simp
next
  case (Cons k ks)
  note la = Cons.prems(1) and ha = Cons.prems(2) and tp = Cons.prems(3)
    and lb = Cons.prems(4) and hb = Cons.prems(5) and fp = Cons.prems(6)
  from Cons.prems(7) have kin: "k \<in> fst ` set kvs" and ks: "set ks \<subseteq> fst ` set kvs" by auto
  from kin obtain Sk where Sk: "map_of kvs k = Some Sk"
    by (cases "map_of kvs k") (auto simp: map_of_eq_None_iff)
  from depth_props_lookup[OF Sk] fuel have fk: "depth Sk + 2 \<le> m" by simp
  from frep_props_lookup[OF fp Sk] obtain sv where sv: "map_of qs k = Some sv"
    and fsv: "frep F h sv Sk" by auto
  have gs: "get_prop h (VRef b) k = Inr sv"
    using lb hb sv by (simp add: cell_def lookup_prop_def)
  note spn = tgtp_spine(2)[OF tp]
  from dist have dsp: "distinct sp" and asp: "a \<notin> set sp" by auto
  show ?case
  proof (cases "is_mapping Sk")
    case True
    from child_focus[OF tp dsp Sk] obtain tv sk where
      tv: "map_of ps k = Some tv" and tg: "tgtp F h tv Sk sk" and sub: "set sk \<subseteq> set sp"
      and dk: "distinct sk"
      and cl: "\<And>h1. length h \<le> length h1 \<Longrightarrow> (\<forall>a<length h. a \<notin> set sk \<longrightarrow> h1 ! a = h ! a)
         \<Longrightarrow> tgtp F h1 tv Sk sk \<Longrightarrow> tgt_props F h1 ps kvs sp"
      by blast
    have gt: "get_prop h (VRef a) k = Inr tv"
      using la ha tv by (simp add: cell_def lookup_prop_def)
    from tg True have tr: "truthy tv" by (cases Sk) auto
    from IH[OF tg dk fsv fk] obtain h2 where
      mg: "mergeConfigs m h tv [sv] = Inr (tv, h2)" and tg2: "tgtp F h2 tv Sk sk"
      and len2: "length h2 = length h" and fr2: "\<forall>x. x \<notin> set sk \<longrightarrow> h2 ! x = h ! x"
      by blast
    have tp2: "tgt_props F h2 ps kvs sp"
      using cl[of h2] len2 fr2 tg2 by simp
    have a2: "h2 ! a = Mapping ps" using fr2 sub asp ha by auto
    have bsk: "b \<notin> set sk" using tgtp_spine(1)[OF tg] b by blast
    have b2: "h2 ! b = Mapping qs" using fr2 bsk hb by auto
    have Ffr: "\<forall>x\<in>F. x < length h \<longrightarrow> h2 ! x = h ! x"
      using fr2 tgtp_spine(1)[OF tg] by blast
    have fp2: "frep_props F h2 qs kvs"
      using frep_frame(3)[OF _ Ffr fp] len2 by simp
    from Cons.IH[of h2 ps] la lb len2 a2 tp2 b2 fp2 ks obtain h' ps' where
      r: "merge_props m h2 (VRef a) (VRef b) ks = Inr h'" "h' ! a = Mapping ps'"
        "tgt_props F h' ps' kvs sp" "length h' = length h2"
        "\<forall>x. x \<notin> set (a # sp) \<longrightarrow> h' ! x = h2 ! x"
      by auto
    have step: "merge_props m h (VRef a) (VRef b) (k # ks) = Inr h'"
      using gs gt tr mg r(1) frep_isObject[OF fsv] True by simp
    have "\<forall>x. x \<notin> set (a # sp) \<longrightarrow> h' ! x = h ! x"
      using r(5) fr2 sub by auto
    with step r len2 show ?thesis by auto
  next
    case False
    let ?ps1 = "AList.update k sv ps"
    let ?h1 = "h[a := Mapping ?ps1]"
    have st: "set_prop h (VRef a) k sv = Inr ?h1"
      using la ha by (simp add: cell_def)
    have tp0: "tgt_props F h ?ps1 kvs sp" by (rule replace_child[OF tp Sk False fsv])
    have Ffr: "\<forall>x\<in>F. x < length h \<longrightarrow> ?h1 ! x = h ! x"
      using a by (metis nth_list_update_neq)
    have "\<forall>x\<in>set sp. ?h1 ! x = h ! x" using asp by (metis nth_list_update_neq)
    from tgtp_frame(2)[OF _ Ffr tp0 this] have tp1: "tgt_props F ?h1 ?ps1 kvs sp" by simp
    have a1: "?h1 ! a = Mapping ?ps1" using la by simp
    have b1: "?h1 ! b = Mapping qs" using a b hb by (metis nth_list_update_neq)
    have fp1: "frep_props F ?h1 qs kvs" using frep_frame(3)[OF _ Ffr fp] by simp
    from Cons.IH[of ?h1 ?ps1] la lb a1 tp1 b1 fp1 ks obtain h' ps' where
      r: "merge_props m ?h1 (VRef a) (VRef b) ks = Inr h'" "h' ! a = Mapping ps'"
        "tgt_props F h' ps' kvs sp" "length h' = length ?h1"
        "\<forall>x. x \<notin> set (a # sp) \<longrightarrow> h' ! x = ?h1 ! x"
      by auto
    have step: "merge_props m h (VRef a) (VRef b) (k # ks) = Inr h'"
      using gs st r(1) frep_isObject[OF fsv] False by simp
    have "\<forall>x. x \<notin> set (a # sp) \<longrightarrow> h' ! x = h ! x"
      using r(5) by (metis list.set_intros(1) nth_list_update_neq)
    with step r show ?thesis by auto
  qed
qed

lemma merge_same:
  "tgtp F h t X sp \<Longrightarrow> distinct sp \<Longrightarrow> frep F h s X \<Longrightarrow> depth X + 2 \<le> m
   \<Longrightarrow> \<exists>h'. mergeConfigs m h t [s] = Inr (t, h') \<and> tgtp F h' t X sp \<and> length h' = length h
          \<and> (\<forall>a. a \<notin> set sp \<longrightarrow> h' ! a = h ! a)"
proof (induction m arbitrary: h t s X sp)
  case 0
  then show ?case by simp
next
  case (Suc m)
  from Suc.prems(4) obtain m' where m': "m = Suc m'" by (cases m) auto
  show ?case
  proof (cases X)
    case (JObj kvs)
    from Suc.prems(1) JObj obtain a ps sp' where
      t: "t = VRef a" and a: "a \<notin> F" "a < length h" "h ! a = Mapping ps"
      and sp: "sp = a # sp'" and tp: "tgt_props F h ps kvs sp'" by auto
    from Suc.prems(3) JObj obtain b qs where
      s: "s = VRef b" and b: "b \<in> F" "b < length h" "h ! b = Mapping qs"
      and fp: "frep_props F h qs kvs" by auto
    from Suc.prems(4) JObj have fuel: "depth_props kvs + 2 \<le> m" by simp
    have keys: "own_keys h s = Inr (map fst kvs)"
      using s b frep_props_keys[OF fp] by (simp add: cell_def)
    from merge_props_same[where ks = "map fst kvs", OF Suc.IH a(1) b(1) _ fuel a(2,3) tp b(2,3) fp]
      Suc.prems(2) sp
    obtain h' ps' where
      r: "merge_props m h (VRef a) (VRef b) (map fst kvs) = Inr h'" "h' ! a = Mapping ps'"
        "tgt_props F h' ps' kvs sp'" "length h' = length h"
        "\<forall>x. x \<notin> set (a # sp') \<longrightarrow> h' ! x = h ! x"
      by auto
    have io: "isObject h t" "isObject h s"
      using tgtp_isObject[OF Suc.prems(1)] frep_isObject[OF Suc.prems(3)] JObj by auto
    have "mergeConfigs (Suc m) h t [s] = Inr (t, h')"
      using io keys r(1) t s m' by simp
    moreover have "tgtp F h' t X sp"
      using JObj t a sp r by auto
    ultimately show ?thesis using r sp by auto
  qed (use Suc.prems m' in \<open>auto simp: isObject_def cell_def\<close>)
qed


lemma frep_extend:
  shows "frep F h v T \<Longrightarrow> frep F (h @ new) v T"
    and "frep_elems F h es xs \<Longrightarrow> frep_elems F (h @ new) es xs"
    and "frep_props F h ps kvs \<Longrightarrow> frep_props F (h @ new) ps kvs"
  by (rule frep_frame[where h' = "h @ new"]; simp add: nth_append)+

lemma tgtp_extend:
  shows "tgtp F h v T sp \<Longrightarrow> tgtp F (h @ new) v T sp"
    and "tgt_props F h ps kvs sp \<Longrightarrow> tgt_props F (h @ new) ps kvs sp"
proof -
  show "tgtp F h v T sp \<Longrightarrow> tgtp F (h @ new) v T sp"
    using tgtp_frame(1)[of h "h @ new" F v T sp] tgtp_spine(1)[of F h v T sp]
    by (auto simp: nth_append)
  show "tgt_props F h ps kvs sp \<Longrightarrow> tgt_props F (h @ new) ps kvs sp"
    using tgtp_frame(2)[of h "h @ new" F ps kvs sp] tgtp_spine(2)[of F h ps kvs sp]
    by (auto simp: nth_append)
qed

lemma alloc_tree_extends:
  shows "alloc_tree h T = (v, h') \<Longrightarrow> \<exists>new. h' = h @ new"
    and "alloc_elems h xs = (vs, h') \<Longrightarrow> \<exists>new. h' = h @ new"
    and "alloc_props h kvs = (ps, h') \<Longrightarrow> \<exists>new. h' = h @ new"
proof (induction h T and h xs and h kvs arbitrary: v h' and vs h' and ps h'
       rule: alloc_tree_alloc_elems_alloc_props.induct)
  case (5 h xs)
  then show ?case by (fastforce simp: alloc_def split: prod.splits)
next
  case (6 h kvs)
  then show ?case by (fastforce simp: alloc_def split: prod.splits)
next
  case (8 h x xs)
  then show ?case by (fastforce split: prod.splits)
next
  case (10 h kv kvs)
  then show ?case by (fastforce split: prod.splits)
qed auto


lemma alloc_tree_frep:
  shows "alloc_tree h T = (v, h') \<Longrightarrow> {length h..<length h'} \<subseteq> F \<Longrightarrow> frep F h' v T"
    and "alloc_elems h xs = (vs, h') \<Longrightarrow> {length h..<length h'} \<subseteq> F
           \<Longrightarrow> frep_elems F h' (map Some vs) xs"
    and "alloc_props h kvs = (ps, h') \<Longrightarrow> {length h..<length h'} \<subseteq> F
           \<Longrightarrow> frep_props F h' ps kvs"
proof (induction h T and h xs and h kvs arbitrary: v h' and vs h' and ps h'
       rule: alloc_tree_alloc_elems_alloc_props.induct)
  case (5 h xs)
  from "5.prems"(1) obtain vs h1 where al: "alloc_elems h xs = (vs, h1)"
    and v: "v = VRef (length h1)" and h': "h' = h1 @ [Arr (map Some vs) []]"
    by (auto simp: alloc_def split: prod.splits)
  from alloc_tree_extends(2)[OF al] have len: "length h \<le> length h1" by auto
  from "5.prems"(2) h' have "{length h..<length h1} \<subseteq> F" by (auto simp: subset_iff)
  from "5.IH"[OF al this] have "frep_elems F h1 (map Some vs) xs" .
  from frep_extend(2)[OF this] v h' "5.prems"(2) len show ?case by auto
next
  case (6 h kvs)
  from "6.prems"(1) obtain ps h1 where al: "alloc_props h kvs = (ps, h1)"
    and v: "v = VRef (length h1)" and h': "h' = h1 @ [Mapping ps]"
    by (auto simp: alloc_def split: prod.splits)
  from alloc_tree_extends(3)[OF al] have len: "length h \<le> length h1" by auto
  from "6.prems"(2) h' have "{length h..<length h1} \<subseteq> F" by (auto simp: subset_iff)
  from "6.IH"[OF al this] have "frep_props F h1 ps kvs" .
  from frep_extend(3)[OF this] v h' "6.prems"(2) len show ?case by auto
next
  case (8 h x xs)
  from "8.prems"(1) obtain w h1 ws where a1: "alloc_tree h x = (w, h1)"
    and a2: "alloc_elems h1 xs = (ws, h')" and vs: "vs = w # ws"
    by (auto split: prod.splits)
  from alloc_tree_extends(1)[OF a1] have l1: "length h \<le> length h1" by auto
  from alloc_tree_extends(2)[OF a2] obtain new where new: "h' = h1 @ new" by auto
  from "8.prems"(2) new have s1: "{length h..<length h1} \<subseteq> F" by (auto simp: subset_iff)
  from "8.prems"(2) l1 have s2: "{length h1..<length h'} \<subseteq> F" by (auto simp: subset_iff)
  from "8.IH"(1)[OF a1 s1] have "frep F h1 w x" .
  from frep_extend(1)[OF this] new have f1: "frep F h' w x" by simp
  from "8.IH"(2)[OF a1[symmetric] a2 s2]
  have "frep_elems F h' (map Some ws) xs" .
  with f1 vs show ?case by simp
next
  case (10 h kv kvs)
  from "10.prems"(1) obtain w h1 qs where a1: "alloc_tree h (snd kv) = (w, h1)"
    and a2: "alloc_props h1 kvs = (qs, h')" and ps: "ps = (fst kv, w) # qs"
    by (auto split: prod.splits)
  from alloc_tree_extends(1)[OF a1] have l1: "length h \<le> length h1" by auto
  from alloc_tree_extends(3)[OF a2] obtain new where new: "h' = h1 @ new" by auto
  from "10.prems"(2) new have s1: "{length h..<length h1} \<subseteq> F" by (auto simp: subset_iff)
  from "10.prems"(2) l1 have s2: "{length h1..<length h'} \<subseteq> F" by (auto simp: subset_iff)
  from "10.IH"(1)[OF a1 s1] have "frep F h1 w (snd kv)" .
  from frep_extend(1)[OF this] new have f1: "frep F h' w (snd kv)" by simp
  from "10.IH"(2)[OF a1[symmetric] a2 s2]
  have "frep_props F h' qs kvs" .
  with f1 ps show ?case by simp
qed auto


lemma alloc_tree_tgtp:
  shows "alloc_tree h T = (v, h') \<Longrightarrow>
           \<exists>sp. distinct sp \<and> set sp \<subseteq> {length h..<length h'}
             \<and> (\<forall>F. {length h..<length h'} - set sp \<subseteq> F \<longrightarrow> F \<inter> set sp = {}
                   \<longrightarrow> tgtp F h' v T sp)"
    and "alloc_elems h xs = (vs, h') \<Longrightarrow> True"
    and "alloc_props h kvs = (ps, h') \<Longrightarrow>
           \<exists>sp. distinct sp \<and> set sp \<subseteq> {length h..<length h'}
             \<and> (\<forall>F. {length h..<length h'} - set sp \<subseteq> F \<longrightarrow> F \<inter> set sp = {}
                   \<longrightarrow> tgt_props F h' ps kvs sp)"
proof (induction h T and h xs and h kvs arbitrary: v h' and vs h' and ps h'
       rule: alloc_tree_alloc_elems_alloc_props.induct)
  case (5 h xs)
  have "tgtp F h' v (JArr xs) []" if "{length h..<length h'} \<subseteq> F" for F
    using alloc_tree_frep(1)[OF "5.prems" that] by simp
  then show ?case by (intro exI[of _ "[]"]) auto
next
  case (6 h kvs)
  from "6.prems"(1) obtain ps h1 where al: "alloc_props h kvs = (ps, h1)"
    and v: "v = VRef (length h1)" and h': "h' = h1 @ [Mapping ps]"
    by (auto simp: alloc_def split: prod.splits)
  from alloc_tree_extends(3)[OF al] have len: "length h \<le> length h1" by auto
  from "6.IH"[OF al] obtain sp where d: "distinct sp"
    and sub: "set sp \<subseteq> {length h..<length h1}"
    and cl: "\<And>F. {length h..<length h1} - set sp \<subseteq> F \<Longrightarrow> F \<inter> set sp = {}
                   \<Longrightarrow> tgt_props F h1 ps kvs sp"
    by blast
  let ?sp = "length h1 # sp"
  have "tgtp F h' v (JObj kvs) ?sp"
    if F1: "{length h..<length h'} - set ?sp \<subseteq> F" and F2: "F \<inter> set ?sp = {}" for F
  proof -
    have "{length h..<length h1} - set sp \<subseteq> F" using F1 h' by (auto simp: subset_iff)
    moreover have "F \<inter> set sp = {}" using F2 by auto
    ultimately have "tgt_props F h1 ps kvs sp" by (rule cl)
    from tgtp_extend(2)[OF this] have "tgt_props F h' ps kvs sp" using h' by simp
    with v h' F2 show ?thesis by auto
  qed
  moreover have "distinct ?sp" using d sub by auto
  moreover have "set ?sp \<subseteq> {length h..<length h'}" using sub h' len by auto
  ultimately show ?case by blast
next
  case (10 h kv kvs)
  from "10.prems"(1) obtain w h1 qs where a1: "alloc_tree h (snd kv) = (w, h1)"
    and a2: "alloc_props h1 kvs = (qs, h')" and ps: "ps = (fst kv, w) # qs"
    by (auto split: prod.splits)
  from alloc_tree_extends(1)[OF a1] have l1: "length h \<le> length h1" by auto
  from alloc_tree_extends(3)[OF a2] obtain new where new: "h' = h1 @ new" by auto
  from "10.IH"(1)[OF a1] obtain s1 where d1: "distinct s1"
    and sub1: "set s1 \<subseteq> {length h..<length h1}"
    and cl1: "\<And>F. {length h..<length h1} - set s1 \<subseteq> F \<Longrightarrow> F \<inter> set s1 = {}
                   \<Longrightarrow> tgtp F h1 w (snd kv) s1"
    by blast
  from "10.IH"(2)[OF a1[symmetric] a2] obtain s2 where d2: "distinct s2"
    and sub2: "set s2 \<subseteq> {length h1..<length h'}"
    and cl2: "\<And>F. {length h1..<length h'} - set s2 \<subseteq> F \<Longrightarrow> F \<inter> set s2 = {}
                   \<Longrightarrow> tgt_props F h' qs kvs s2"
    by blast
  let ?sp = "s1 @ s2"
  have "tgt_props F h' ps (kv # kvs) ?sp"
    if F1: "{length h..<length h'} - set ?sp \<subseteq> F" and F2: "F \<inter> set ?sp = {}" for F
  proof -
    have "{length h..<length h1} - set s1 \<subseteq> F"
    proof
      fix t assume t: "t \<in> {length h..<length h1} - set s1"
      with sub2 have "t \<notin> set s2" by auto
      with t new have "t \<in> {length h..<length h'} - set ?sp" by auto
      with F1 show "t \<in> F" by blast
    qed
    moreover have "F \<inter> set s1 = {}" using F2 by auto
    ultimately have "tgtp F h1 w (snd kv) s1" by (rule cl1)
    from tgtp_extend(1)[OF this] have t1: "tgtp F h' w (snd kv) s1" using new by simp
    have "{length h1..<length h'} - set s2 \<subseteq> F"
    proof
      fix t assume t: "t \<in> {length h1..<length h'} - set s2"
      with sub1 have "t \<notin> set s1" by auto
      with t l1 have "t \<in> {length h..<length h'} - set ?sp" by auto
      with F1 show "t \<in> F" by blast
    qed
    moreover have "F \<inter> set s2 = {}" using F2 by auto
    ultimately have "tgt_props F h' qs kvs s2" by (rule cl2)
    with t1 ps show ?thesis by auto
  qed
  moreover have "distinct ?sp" using d1 d2 sub1 sub2 by (fastforce simp: subset_iff)
  moreover have "set ?sp \<subseteq> {length h..<length h'}"
    using sub1 sub2 l1 new by (auto simp: subset_iff)
  ultimately show ?case by blast
qed auto


lemma frep_stringify_fuel:
  shows "frep F h v T \<Longrightarrow> depth T \<le> n \<Longrightarrow> stringify_fuel n h v = Inr (Some T)"
    and "frep_elems F h es xs \<Longrightarrow> depth_elems xs \<le> n \<Longrightarrow> stringify_elems n h es = Inr xs"
    and "frep_props F h ps kvs \<Longrightarrow> depth_props kvs \<le> n \<Longrightarrow> stringify_props n h ps = Inr kvs"
proof (induction F h v T and F h es xs and F h ps kvs arbitrary: n and n and n
       rule: frep_frep_elems_frep_props.induct)
  case (5 F h v xs)
  then obtain n' where "n = Suc n'" by (cases n) auto
  with 5 show ?case by (auto simp: cell_def)
next
  case (6 F h v kvs)
  then obtain n' where "n = Suc n'" by (cases n) auto
  with 6 show ?case by (auto simp: cell_def)
qed auto

lemma frep_fun:
  shows "frep F h v T \<Longrightarrow> frep F' h v T' \<Longrightarrow> T = T'"
    and "frep_elems F h es xs \<Longrightarrow> frep_elems F' h es xs' \<Longrightarrow> xs = xs'"
    and "frep_props F h ps kvs \<Longrightarrow> frep_props F' h ps kvs' \<Longrightarrow> kvs = kvs'"
proof (induction F h v T and F h es xs and F h ps kvs arbitrary: T' and xs' and kvs'
       rule: frep_frep_elems_frep_props.induct)
  case (1 F h v)
  then show ?case by (cases T') auto
next
  case (2 F h v b)
  then show ?case by (cases T') auto
next
  case (3 F h v n)
  then show ?case by (cases T') auto
next
  case (4 F h v s)
  then show ?case by (cases T') auto
next
  case (5 F h v xs)
  then show ?case by (cases T') auto
next
  case (6 F h v kvs)
  then show ?case by (cases T') auto
next
  case (7 F h es)
  then show ?case by (cases xs') auto
next
  case (8 F h es x xs)
  then show ?case by (cases xs') auto
next
  case (9 F h ps)
  then show ?case by (cases kvs') auto
next
  case (10 F h ps kv kvs)
  then show ?case by (cases kvs') (auto simp: prod_eq_iff)
qed

lemma frep_chain:
  shows "frep F h v T \<Longrightarrow>
           \<exists>as. length as = depth T \<and> distinct as
             \<and> (\<forall>a\<in>set as. a < length h \<and> (\<exists>T'. frep F h (VRef a) T' \<and> tsize T' \<le> tsize T))"
    and "frep_elems F h es xs \<Longrightarrow>
           \<exists>as. length as = depth_elems xs \<and> distinct as
             \<and> (\<forall>a\<in>set as. a < length h
                   \<and> (\<exists>T'. frep F h (VRef a) T' \<and> tsize T' \<le> tsize_elems xs))"
    and "frep_props F h ps kvs \<Longrightarrow>
           \<exists>as. length as = depth_props kvs \<and> distinct as
             \<and> (\<forall>a\<in>set as. a < length h
                   \<and> (\<exists>T'. frep F h (VRef a) T' \<and> tsize T' \<le> tsize_props kvs))"
proof (induction F h v T and F h es xs and F h ps kvs
       rule: frep_frep_elems_frep_props.induct)
  case (5 F h v xs)
  then obtain a es where v: "v = VRef a" "a < length h" "h ! a = Arr es []"
    and fe: "frep_elems F h es xs" by auto
  from "5.IH"[OF fe] obtain as where as: "length as = depth_elems xs" "distinct as"
    "\<forall>a\<in>set as. a < length h \<and> (\<exists>T'. frep F h (VRef a) T' \<and> tsize T' \<le> tsize_elems xs)"
    by blast
  have "a \<notin> set as"
  proof
    assume "a \<in> set as"
    with as(3) obtain T' where "frep F h (VRef a) T'" "tsize T' \<le> tsize_elems xs" by blast
    with frep_fun(1)[OF "5.prems" this(1)[unfolded v(1)[symmetric]]] show False by auto
  qed
  moreover have "\<exists>T'. frep F h (VRef a) T' \<and> tsize T' \<le> tsize (JArr xs)"
    using "5.prems" v by blast
  moreover have "\<forall>a\<in>set as. a < length h
      \<and> (\<exists>T'. frep F h (VRef a) T' \<and> tsize T' \<le> tsize (JArr xs))"
    using as(3) by (metis le_SucI tsize.simps(1))
  ultimately show ?case using as(1,2) v(2)
    by (intro exI[of _ "a # as"]) simp
next
  case (6 F h v kvs)
  then obtain a ps where v: "v = VRef a" "a < length h" "h ! a = Mapping ps"
    and fe: "frep_props F h ps kvs" by auto
  from "6.IH"[OF fe] obtain as where as: "length as = depth_props kvs" "distinct as"
    "\<forall>a\<in>set as. a < length h \<and> (\<exists>T'. frep F h (VRef a) T' \<and> tsize T' \<le> tsize_props kvs)"
    by blast
  have "a \<notin> set as"
  proof
    assume "a \<in> set as"
    with as(3) obtain T' where "frep F h (VRef a) T'" "tsize T' \<le> tsize_props kvs" by blast
    with frep_fun(1)[OF "6.prems" this(1)[unfolded v(1)[symmetric]]] show False by auto
  qed
  moreover have "\<exists>T'. frep F h (VRef a) T' \<and> tsize T' \<le> tsize (JObj kvs)"
    using "6.prems" v by blast
  moreover have "\<forall>a\<in>set as. a < length h
      \<and> (\<exists>T'. frep F h (VRef a) T' \<and> tsize T' \<le> tsize (JObj kvs))"
    using as(3) by (metis le_SucI tsize.simps(2))
  ultimately show ?case using as(1,2) v(2)
    by (intro exI[of _ "a # as"]) simp
next
  case (8 F h es x xs)
  then obtain w es' where es: "es = Some w # es'" and f1: "frep F h w x"
    and f2: "frep_elems F h es' xs" by auto
  from "8.IH"(1)[OF f1] obtain as1 where as1: "length as1 = depth x" "distinct as1"
    "\<forall>a\<in>set as1. a < length h \<and> (\<exists>T'. frep F h (VRef a) T' \<and> tsize T' \<le> tsize x)"
    by blast
  from "8.IH"(2)[OF f2] obtain as2 where as2: "length as2 = depth_elems xs" "distinct as2"
    "\<forall>a\<in>set as2. a < length h \<and> (\<exists>T'. frep F h (VRef a) T' \<and> tsize T' \<le> tsize_elems xs)"
    by blast
  show ?case
  proof (cases "depth_elems xs \<le> depth x")
    case True
    moreover have "\<forall>a\<in>set as1. a < length h
        \<and> (\<exists>T'. frep F h (VRef a) T' \<and> tsize T' \<le> tsize_elems (x # xs))"
      using as1(3) by (metis trans_le_add1 tsize_elems.simps(2))
    ultimately show ?thesis using as1(1,2) by (intro exI[of _ as1]) (simp add: max_def)
  next
    case False
    moreover have "\<forall>a\<in>set as2. a < length h
        \<and> (\<exists>T'. frep F h (VRef a) T' \<and> tsize T' \<le> tsize_elems (x # xs))"
      using as2(3) by (metis trans_le_add2 tsize_elems.simps(2))
    ultimately show ?thesis using as2(1,2) by (intro exI[of _ as2]) (simp add: max_def)
  qed
next
  case (10 F h ps kv kvs)
  then obtain w ps' where es: "ps = (fst kv, w) # ps'" and f1: "frep F h w (snd kv)"
    and f2: "frep_props F h ps' kvs" by auto
  from "10.IH"(1)[OF f1] obtain as1 where as1: "length as1 = depth (snd kv)" "distinct as1"
    "\<forall>a\<in>set as1. a < length h \<and> (\<exists>T'. frep F h (VRef a) T' \<and> tsize T' \<le> tsize (snd kv))"
    by blast
  from "10.IH"(2)[OF f2] obtain as2 where as2: "length as2 = depth_props kvs" "distinct as2"
    "\<forall>a\<in>set as2. a < length h \<and> (\<exists>T'. frep F h (VRef a) T' \<and> tsize T' \<le> tsize_props kvs)"
    by blast
  show ?case
  proof (cases "depth_props kvs \<le> depth (snd kv)")
    case True
    moreover have "\<forall>a\<in>set as1. a < length h
        \<and> (\<exists>T'. frep F h (VRef a) T' \<and> tsize T' \<le> tsize_props (kv # kvs))"
      using as1(3) by (metis trans_le_add1 tsize_props.simps(2))
    ultimately show ?thesis using as1(1,2) by (intro exI[of _ as1]) (simp add: max_def)
  next
    case False
    moreover have "\<forall>a\<in>set as2. a < length h
        \<and> (\<exists>T'. frep F h (VRef a) T' \<and> tsize T' \<le> tsize_props (kv # kvs))"
      using as2(3) by (metis trans_le_add2 tsize_props.simps(2))
    ultimately show ?thesis using as2(1,2) by (intro exI[of _ as2]) (simp add: max_def)
  qed
qed auto

lemma frep_depth: "frep F h v T \<Longrightarrow> depth T \<le> length h"
proof -
  assume "frep F h v T"
  from frep_chain(1)[OF this] obtain as where as: "length as = depth T" "distinct as"
    "\<forall>a\<in>set as. a < length h" by blast
  from as(3) have "set as \<subseteq> {..<length h}" by auto
  then have "card (set as) \<le> card {..<length h}" by (intro card_mono) auto
  with as(1,2) show ?thesis by (simp add: distinct_card)
qed

lemma frep_stringify: "frep F h v T \<Longrightarrow> stringify h v = Inr (Some T)"
  unfolding stringify_def by (rule frep_stringify_fuel(1)[OF _ frep_depth])

lemma tgtp_frep:
  shows "tgtp F h v T sp \<Longrightarrow> frep UNIV h v T"
    and "tgt_props F h ps kvs sp \<Longrightarrow> frep_props UNIV h ps kvs"
proof (induction F h v T sp and F h ps kvs sp rule: tgtp_tgt_props.induct)
  case (5 F h v xs sp)
  then show ?case using frep_mono(1)[of F UNIV h v "JArr xs"] by simp
qed auto


subsection \<open>Deep merge of a document into its copy\<close>

text \<open>
  C8. Deep merge is idempotent: for every JSON tree \<open>X\<close> and every stack limit of at
  least \<open>depth X + 2\<close>, building \<open>X\<close> twice in the heap (a deep copy and \<open>X\<close>
  itself) and merging \<open>X\<close> into the copy returns normally, and the copy reads \<open>X\<close>
  afterwards.
\<close>

theorem mergeConfigs_idempotent:
  "merge_docs (Suc (Suc (depth X + j))) X X = Inr (Some X)"
proof -
  obtain t h1 where a1: "alloc_tree [] X = (t, h1)" by (cases "alloc_tree [] X")
  obtain s h2 where a2: "alloc_tree h1 X = (s, h2)" by (cases "alloc_tree h1 X")
  from alloc_tree_tgtp(1)[OF a1] obtain sp where d: "distinct sp"
    and sub: "set sp \<subseteq> {0..<length h1}"
    and cl: "\<And>F. {0..<length h1} - set sp \<subseteq> F \<Longrightarrow> F \<inter> set sp = {} \<Longrightarrow> tgtp F h1 t X sp"
    by auto
  from alloc_tree_extends(1)[OF a2] obtain new where new: "h2 = h1 @ new" by auto
  define F where "F = {..<length h2} - set sp"
  have "tgtp F h1 t X sp" using new by (intro cl) (auto simp: F_def)
  from tgtp_extend(1)[OF this] new have tg: "tgtp F h2 t X sp" by simp
  have "{length h1..<length h2} \<subseteq> F" using sub by (auto simp: F_def)
  from alloc_tree_frep(1)[OF a2 this] have fr: "frep F h2 s X" .
  from merge_same[OF tg d fr, of "Suc (Suc (depth X + j))"] obtain h3 where
    m: "mergeConfigs (Suc (Suc (depth X + j))) h2 t [s] = Inr (t, h3)"
    and tg3: "tgtp F h3 t X sp" by auto
  from frep_stringify[OF tgtp_frep(1)[OF tg3]] have "stringify h3 t = Inr (Some X)" .
  with a1 a2 m show ?thesis by (simp add: merge_docs_def)
qed

text \<open>
  The step of the merge loop at a key whose source value is an array: the target's
  property becomes the reference to that same array, and no other cell changes.
\<close>

lemma merge_props_array_by_reference:
  assumes "cell h a = Some (Mapping ps)"
    and "get_prop h source key = Inr (VRef b)" and "isArray h (VRef b)"
  shows "merge_props n h (VRef a) source (key # keys)
     = merge_props n (h[a := Mapping (AList.update key (VRef b) ps)]) (VRef a) source keys"
  using assms by (simp add: isObject_def)

subsection \<open>The merge on trees\<close>

lemma child_update:
  "tgt_props F h ps tk sp \<Longrightarrow> distinct sp \<Longrightarrow>
   \<exists>sk. set sk \<subseteq> set sp \<and> distinct sk \<and>
     (case map_of tk k of None \<Rightarrow> sk = [] \<and> map_of ps k = None
      | Some Tk \<Rightarrow> \<exists>tv. map_of ps k = Some tv \<and> tgtp F h tv Tk sk) \<and>
     (\<forall>h1 v T' sv. length h \<le> length h1 \<longrightarrow> (\<forall>x\<in>F. x < length h \<longrightarrow> h1 ! x = h ! x)
        \<longrightarrow> (\<forall>x\<in>set sp - set sk. h1 ! x = h ! x)
        \<longrightarrow> tgtp F h1 v T' sv \<longrightarrow> distinct sv \<longrightarrow> set sv \<subseteq> set sk \<union> {length h..<length h1}
        \<longrightarrow> (\<exists>sp'. tgt_props F h1 (AList.update k v ps) (AList.update k T' tk) sp' \<and> distinct sp'
               \<and> set sp' \<subseteq> (set sp - set sk) \<union> set sv))"
proof (induction tk arbitrary: ps sp)
  case Nil
  then have "ps = []" "sp = []" by auto
  then show ?case by auto
next
  case (Cons kv kvs)
  from Cons.prems(1) obtain v0 ps' s1 s2 where
    ps: "ps = (fst kv, v0) # ps'" and sp: "sp = s1 @ s2"
    and hd: "tgtp F h v0 (snd kv) s1" and tl: "tgt_props F h ps' kvs s2"
    by auto
  from Cons.prems(2) sp have d1: "distinct s1" and d2: "distinct s2"
    and dj: "set s1 \<inter> set s2 = {}" by auto
  note sp1 = tgtp_spine(1)[OF hd] and sp2 = tgtp_spine(2)[OF tl]
  show ?case
  proof (cases "fst kv = k")
    case True
    have look: "map_of (kv # kvs) k = Some (snd kv)" using True by (cases kv) auto
    have cl1: "\<exists>sp'. tgt_props F h1 (AList.update k v ps) (AList.update k T' (kv # kvs)) sp'
             \<and> distinct sp' \<and> set sp' \<subseteq> (set sp - set s1) \<union> set sv"
      if len: "length h \<le> length h1" and fF: "\<forall>x\<in>F. x < length h \<longrightarrow> h1 ! x = h ! x"
        and fr: "\<forall>x\<in>set sp - set s1. h1 ! x = h ! x"
        and new: "tgtp F h1 v T' sv" and dv: "distinct sv"
        and sub: "set sv \<subseteq> set s1 \<union> {length h..<length h1}" for h1 v T' sv
    proof -
      have "\<forall>a\<in>set s2. h1 ! a = h ! a" using fr sp dj by auto
      from tgtp_frame(2)[OF len fF tl this] have tl1: "tgt_props F h1 ps' kvs s2" .
      have u1: "AList.update k v ps = (k, v) # ps'" using ps True by simp
      have u2: "AList.update k T' (kv # kvs) = (k, T') # kvs" using True by (cases kv) auto
      have t: "tgt_props F h1 ((k, v) # ps') ((k, T') # kvs) (sv @ s2)"
        using new tl1 by auto
      have "set sv \<inter> set s2 = {}" using sub dj sp2 by fastforce
      then have d: "distinct (sv @ s2)" using dv d2 by simp
      have "set (sv @ s2) \<subseteq> (set sp - set s1) \<union> set sv" using sp dj by auto
      with t d u1 u2 show ?thesis by metis
    qed
    have cur1: "case map_of (kv # kvs) k of None \<Rightarrow> s1 = [] \<and> map_of ps k = None
           | Some Tk \<Rightarrow> \<exists>tv. map_of ps k = Some tv \<and> tgtp F h tv Tk s1"
      unfolding look using ps True hd by simp
    have sub1: "set s1 \<subseteq> set sp" using sp by simp
    show ?thesis
      by (intro exI[of _ s1] conjI allI impI sub1 d1 cur1 cl1) assumption+
  next
    case False
    have look: "map_of (kv # kvs) k = map_of kvs k" using False by (cases kv) auto
    have lookp: "map_of ps k = map_of ps' k" using False ps by simp
    from Cons.IH[OF tl d2] obtain sk where
      sks: "set sk \<subseteq> set s2" and dk: "distinct sk"
      and cur: "case map_of kvs k of None \<Rightarrow> sk = [] \<and> map_of ps' k = None
           | Some Tk \<Rightarrow> \<exists>tv. map_of ps' k = Some tv \<and> tgtp F h tv Tk sk"
      and cl: "\<And>h1 v T' sv. length h \<le> length h1 \<Longrightarrow> (\<forall>x\<in>F. x < length h \<longrightarrow> h1 ! x = h ! x)
        \<Longrightarrow> (\<forall>x\<in>set s2 - set sk. h1 ! x = h ! x)
        \<Longrightarrow> tgtp F h1 v T' sv \<Longrightarrow> distinct sv \<Longrightarrow> set sv \<subseteq> set sk \<union> {length h..<length h1}
        \<Longrightarrow> (\<exists>sp'. tgt_props F h1 (AList.update k v ps') (AList.update k T' kvs) sp' \<and> distinct sp'
               \<and> set sp' \<subseteq> (set s2 - set sk) \<union> set sv)"
      by blast
    have cl2: "\<exists>sp'. tgt_props F h1 (AList.update k v ps) (AList.update k T' (kv # kvs)) sp'
             \<and> distinct sp' \<and> set sp' \<subseteq> (set sp - set sk) \<union> set sv"
      if len: "length h \<le> length h1" and fF: "\<forall>x\<in>F. x < length h \<longrightarrow> h1 ! x = h ! x"
        and fr: "\<forall>x\<in>set sp - set sk. h1 ! x = h ! x"
        and new: "tgtp F h1 v T' sv" and dv: "distinct sv"
        and sub: "set sv \<subseteq> set sk \<union> {length h..<length h1}" for h1 v T' sv
    proof -
      have "\<forall>a\<in>set s1. h1 ! a = h ! a" using fr sp dj sks by auto
      from tgtp_frame(1)[OF len fF hd this] have hd1: "tgtp F h1 v0 (snd kv) s1" .
      have "\<forall>x\<in>set s2 - set sk. h1 ! x = h ! x" using fr sp by auto
      from cl[OF len fF this new dv sub] obtain sp2' where
        t2: "tgt_props F h1 (AList.update k v ps') (AList.update k T' kvs) sp2'"
        and d2': "distinct sp2'" and s2': "set sp2' \<subseteq> (set s2 - set sk) \<union> set sv"
        by blast
      have u1: "AList.update k v ps = (fst kv, v0) # AList.update k v ps'"
        using ps False by simp
      have u2: "AList.update k T' (kv # kvs) = kv # AList.update k T' kvs"
        using False by (cases kv) auto
      have t: "tgt_props F h1 (AList.update k v ps) (AList.update k T' (kv # kvs)) (s1 @ sp2')"
        unfolding u1 u2 using hd1 t2 by auto
      have "set s1 \<inter> set sp2' = {}" using s2' sub dj sks sp1 by fastforce
      then have d: "distinct (s1 @ sp2')" using d1 d2' by simp
      have "set (s1 @ sp2') \<subseteq> (set sp - set sk) \<union> set sv" using sp dj sks s2' by auto
      with t d show ?thesis by metis
    qed
    have cur2: "case map_of (kv # kvs) k of None \<Rightarrow> sk = [] \<and> map_of ps k = None
           | Some Tk \<Rightarrow> \<exists>tv. map_of ps k = Some tv \<and> tgtp F h tv Tk sk"
      unfolding look lookp by (rule cur)
    have sub2: "set sk \<subseteq> set sp" using sp sks by auto
    show ?thesis
      by (intro exI[of _ sk] conjI allI impI sub2 dk cur2 cl2) assumption+
  qed
qed


lemma tgtp_truthy: "tgtp F h v T sp \<Longrightarrow> truthy v = (\<not> jfalsy T)"
  by (cases T) auto

lemma jfalsy_not_mapping: "jfalsy T \<Longrightarrow> \<not> is_mapping T"
  by (cases T) auto

lemma jmerge_not_mapping: "\<not> is_mapping S \<Longrightarrow> jmerge T S = T"
  by (cases S; cases T) auto

lemma jmerge_target_not_mapping: "\<not> is_mapping T \<Longrightarrow> jmerge T S = T"
  by (cases T) auto

lemma jwf_props_member: "jwf_props kvs \<Longrightarrow> kv \<in> set kvs \<Longrightarrow> jwf (snd kv)"
  by (induction kvs) auto

lemma depth_props_member: "kv \<in> set kvs \<Longrightarrow> depth (snd kv) \<le> depth_props kvs"
  by (induction kvs) auto

lemma update_update_same: "AList.update k x (AList.update k y al) = AList.update k x al"
  by (induction al) auto

lemma update_same_value: "map_of al k = Some v \<Longrightarrow> AList.update k v al = al"
  by (induction al) (auto split: if_splits)

lemma map_of_update_same: "map_of (AList.update k v al) k = Some v"
  by (simp add: AList.update_conv')

lemma install_fresh:
  assumes a: "a \<notin> F" "a < length h" "h ! a = Mapping ps"
    and tp: "tgt_props F h ps tk sp" and dist: "distinct (a # sp)"
    and bound: "\<forall>x\<in>F. x < length h"
  shows "\<exists>h1 sp1. set_prop (h @ [Mapping []]) (VRef a) k (VRef (length h)) = Inr h1
      \<and> length h1 = Suc (length h) \<and> (\<forall>x<length h. x \<noteq> a \<longrightarrow> h1 ! x = h ! x)
      \<and> h1 ! a = Mapping (AList.update k (VRef (length h)) ps)
      \<and> tgt_props F h1 (AList.update k (VRef (length h)) ps) (AList.update k (JObj []) tk) sp1
      \<and> distinct sp1 \<and> set sp1 \<subseteq> set sp \<union> {length h}"
proof -
  let ?n = "length h"
  let ?ps1 = "AList.update k (VRef ?n) ps"
  let ?h1 = "(h @ [Mapping []])[a := Mapping ?ps1]"
  from dist have dsp: "distinct sp" and asp: "a \<notin> set sp" by auto
  note spn = tgtp_spine(2)[OF tp]
  have st: "set_prop (h @ [Mapping []]) (VRef a) k (VRef ?n) = Inr ?h1"
    using a by (simp add: cell_def nth_append)
  from child_update[OF tp dsp, of k] obtain sk where
    sks: "set sk \<subseteq> set sp"
    and cur: "case map_of tk k of None \<Rightarrow> sk = [] \<and> map_of ps k = None
           | Some Tk \<Rightarrow> \<exists>tv. map_of ps k = Some tv \<and> tgtp F h tv Tk sk"
    and cl: "\<And>h1 v T' sv. length h \<le> length h1 \<Longrightarrow> (\<forall>x\<in>F. x < length h \<longrightarrow> h1 ! x = h ! x)
        \<Longrightarrow> (\<forall>x\<in>set sp - set sk. h1 ! x = h ! x)
        \<Longrightarrow> tgtp F h1 v T' sv \<Longrightarrow> distinct sv \<Longrightarrow> set sv \<subseteq> set sk \<union> {length h..<length h1}
        \<Longrightarrow> (\<exists>sp'. tgt_props F h1 (AList.update k v ps) (AList.update k T' tk) sp' \<and> distinct sp'
               \<and> set sp' \<subseteq> (set sp - set sk) \<union> set sv)"
    by blast
  have fr: "\<forall>x<length h. x \<noteq> a \<longrightarrow> ?h1 ! x = h ! x"
    by (simp add: nth_append)
  have fF: "\<forall>x\<in>F. x < length h \<longrightarrow> ?h1 ! x = h ! x" using fr a(1) by blast
  have fs: "\<forall>x\<in>set sp - set sk. ?h1 ! x = h ! x" using fr spn asp by blast
  have nF: "?n \<notin> F" using bound by auto
  have na: "?n \<noteq> a" using a(2) by simp
  have child: "tgtp F ?h1 (VRef ?n) (JObj []) [?n]"
    using nF na by (simp add: nth_append)
  from cl[of ?h1 "VRef ?n" "JObj []" "[?n]", OF _ fF fs child] obtain sp1 where
    t1: "tgt_props F ?h1 ?ps1 (AList.update k (JObj []) tk) sp1" and d1: "distinct sp1"
    and s1: "set sp1 \<subseteq> (set sp - set sk) \<union> {?n}"
    by auto
  have "set sp1 \<subseteq> set sp \<union> {?n}" using s1 by auto
  moreover have "?h1 ! a = Mapping ?ps1" using a(2) by simp
  moreover have "length ?h1 = Suc (length h)" by simp
  ultimately show ?thesis using st fr t1 d1 by blast
qed


lemma merge_props_general:
  assumes IH: "\<And>h t s T S sp. tgtp F h t T sp \<Longrightarrow> distinct sp \<Longrightarrow> frep F h s S \<Longrightarrow> jwf S
       \<Longrightarrow> depth S + 2 \<le> m \<Longrightarrow> \<forall>x\<in>F. x < length h
       \<Longrightarrow> \<exists>h' sp'. mergeConfigs m h t [s] = Inr (t, h') \<and> tgtp F h' t (jmerge T S) sp'
              \<and> distinct sp' \<and> length h \<le> length h'
              \<and> set sp' \<subseteq> set sp \<union> {length h..<length h'}
              \<and> (\<forall>x<length h. x \<notin> set sp \<longrightarrow> h' ! x = h ! x)"
    and a: "a \<notin> F" and b: "b \<in> F"
  shows "a < length h \<Longrightarrow> h ! a = Mapping ps \<Longrightarrow> tgt_props F h ps tk sp \<Longrightarrow> distinct (a # sp)
     \<Longrightarrow> h ! b = Mapping qs \<Longrightarrow> frep_props F h qs skvs \<Longrightarrow> \<forall>x\<in>F. x < length h
     \<Longrightarrow> \<forall>kv\<in>set rest. map_of skvs (fst kv) = Some (snd kv) \<and> jwf (snd kv)
            \<and> depth (snd kv) + 2 \<le> m
     \<Longrightarrow> \<exists>h' ps' sp'. merge_props m h (VRef a) (VRef b) (map fst rest) = Inr h'
           \<and> h' ! a = Mapping ps'
           \<and> tgt_props F h' ps' (jmerge_props tk rest) sp' \<and> distinct (a # sp')
           \<and> length h \<le> length h' \<and> set sp' \<subseteq> set sp \<union> {length h..<length h'}
           \<and> (\<forall>x<length h. x \<notin> set (a # sp) \<longrightarrow> h' ! x = h ! x)"
proof (induction rest arbitrary: h ps tk sp)
  case Nil
  then show ?case by (intro exI[of _ h] exI[of _ ps] exI[of _ sp]) simp
next
  case (Cons kv rest)
  obtain k Sk where kv: "kv = (k, Sk)" by (cases kv)
  note la = Cons.prems(1) and ha = Cons.prems(2) and tp = Cons.prems(3)
    and dist = Cons.prems(4) and hb = Cons.prems(5) and fp = Cons.prems(6)
    and bound = Cons.prems(7)
  from Cons.prems(8) kv have look: "map_of skvs k = Some Sk" and wf: "jwf Sk"
    and fuel: "depth Sk + 2 \<le> m"
    and rest: "\<forall>kv\<in>set rest. map_of skvs (fst kv) = Some (snd kv) \<and> jwf (snd kv)
            \<and> depth (snd kv) + 2 \<le> m"
    by auto
  from b bound have lb: "b < length h" by blast
  from a b have ab: "a \<noteq> b" by blast
  from dist have dsp: "distinct sp" and asp: "a \<notin> set sp" by auto
  note spn = tgtp_spine(2)[OF tp]
  from frep_props_lookup[OF fp look] obtain sv where sv: "map_of qs k = Some sv"
    and fsv: "frep F h sv Sk" by auto
  have gs: "get_prop h (VRef b) k = Inr sv"
    using lb hb sv by (simp add: cell_def lookup_prop_def)
  have io: "isObject h sv = is_mapping Sk" by (rule frep_isObject[OF fsv])
  show ?case
  proof (cases "is_mapping Sk")
    case False
    let ?ps1 = "AList.update k sv ps"
    let ?h1 = "h[a := Mapping ?ps1]"
    have st: "set_prop h (VRef a) k sv = Inr ?h1"
      using la ha by (simp add: cell_def)
    from child_update[OF tp dsp, of k] obtain sk where
      sks: "set sk \<subseteq> set sp"
      and cl: "\<And>h1 v T' sv. length h \<le> length h1 \<Longrightarrow> (\<forall>x\<in>F. x < length h \<longrightarrow> h1 ! x = h ! x)
        \<Longrightarrow> (\<forall>x\<in>set sp - set sk. h1 ! x = h ! x)
        \<Longrightarrow> tgtp F h1 v T' sv \<Longrightarrow> distinct sv \<Longrightarrow> set sv \<subseteq> set sk \<union> {length h..<length h1}
        \<Longrightarrow> (\<exists>sp'. tgt_props F h1 (AList.update k v ps) (AList.update k T' tk) sp' \<and> distinct sp'
               \<and> set sp' \<subseteq> (set sp - set sk) \<union> set sv)"
      by blast
    have fF: "\<forall>x\<in>F. x < length h \<longrightarrow> ?h1 ! x = h ! x"
      using a by (metis nth_list_update_neq)
    have fs: "\<forall>x\<in>set sp - set sk. ?h1 ! x = h ! x"
      using asp by (metis DiffD1 nth_list_update_neq)
    have fsv1: "frep F ?h1 sv Sk" using frep_frame(1)[OF _ fF fsv] by simp
    have child: "tgtp F ?h1 sv Sk []" using fsv1 False by (simp add: nonobj_tgtp)
    from cl[of ?h1 sv Sk "[]", OF _ fF fs child] obtain sp1 where
      t1: "tgt_props F ?h1 ?ps1 (AList.update k Sk tk) sp1" and d1: "distinct sp1"
      and s1: "set sp1 \<subseteq> set sp"
      by auto
    have a1: "?h1 ! a = Mapping ?ps1" using la by simp
    have b1: "?h1 ! b = Mapping qs" using ab hb by simp
    have fp1: "frep_props F ?h1 qs skvs" using frep_frame(3)[OF _ fF fp] by simp
    have dist1: "distinct (a # sp1)" using d1 s1 asp by auto
    from Cons.IH[of ?h1 ?ps1 "AList.update k Sk tk" sp1, OF _ a1 t1 dist1 b1 fp1 _ rest]
      la bound
    obtain h' ps' sp' where
      r: "merge_props m ?h1 (VRef a) (VRef b) (map fst rest) = Inr h'" "h' ! a = Mapping ps'"
        "tgt_props F h' ps' (jmerge_props (AList.update k Sk tk) rest) sp'" "distinct (a # sp')"
        "length ?h1 \<le> length h'" "set sp' \<subseteq> set sp1 \<union> {length ?h1..<length h'}"
        "\<forall>x<length ?h1. x \<notin> set (a # sp1) \<longrightarrow> h' ! x = ?h1 ! x"
      by auto
    have step: "merge_props m h (VRef a) (VRef b) (map fst (kv # rest)) = Inr h'"
      using gs st r(1) io False kv by simp
    have jm: "jmerge_props tk (kv # rest) = jmerge_props (AList.update k Sk tk) rest"
      using False kv by simp
    have frm: "\<forall>x<length h. x \<notin> set (a # sp) \<longrightarrow> h' ! x = h ! x"
      using r(7) s1 by auto
    have sub: "set sp' \<subseteq> set sp \<union> {length h..<length h'}" using r(6) s1 by auto
    from step r(2,3,4,5) frm sub show ?thesis unfolding jm by auto
  next
    case True
    define tv where "tv = lookup_prop ps k"
    define T0 where "T0 = (case map_of tk k of None \<Rightarrow> JObj []
                           | Some t \<Rightarrow> if jfalsy t then JObj [] else t)"
    have gt: "get_prop h (VRef a) k = Inr tv"
      using la ha by (simp add: cell_def tv_def)
    from child_update[OF tp dsp, of k] obtain sk where
      sks: "set sk \<subseteq> set sp"
      and cur: "case map_of tk k of None \<Rightarrow> sk = [] \<and> map_of ps k = None
           | Some Tk \<Rightarrow> \<exists>tv. map_of ps k = Some tv \<and> tgtp F h tv Tk sk"
      by blast
    have norm: "\<exists>h1 ps1 tk1 spA.
        (if \<not> truthy tv
         then (case alloc h (Mapping []) of (a', h0) \<Rightarrow> set_prop h0 (VRef a) k (VRef a'))
         else Inr h) = Inr h1
        \<and> length h \<le> length h1 \<and> (\<forall>x<length h. x \<noteq> a \<longrightarrow> h1 ! x = h ! x)
        \<and> h1 ! a = Mapping ps1 \<and> tgt_props F h1 ps1 tk1 spA \<and> distinct spA
        \<and> set spA \<subseteq> set sp \<union> {length h..<length h1}
        \<and> map_of tk1 k = Some T0 \<and> (\<forall>X. AList.update k X tk1 = AList.update k X tk)"
    proof (cases "truthy tv")
      case True
      then obtain Tk where Tk: "map_of tk k = Some Tk" "map_of ps k = Some tv"
          "tgtp F h tv Tk sk"
        using cur by (cases "map_of tk k") (auto simp: tv_def lookup_prop_def)
      from tgtp_truthy[OF Tk(3)] True have "\<not> jfalsy Tk" by simp
      with Tk have "map_of tk k = Some T0" by (simp add: T0_def)
      with True ha tp dsp show ?thesis
        by (intro exI[of _ h] exI[of _ ps] exI[of _ tk] exI[of _ sp]) simp
    next
      case False
      have T0: "T0 = JObj []"
      proof (cases "map_of tk k")
        case None
        then show ?thesis by (simp add: T0_def)
      next
        case (Some Tk)
        with cur obtain tv' where "map_of ps k = Some tv'" "tgtp F h tv' Tk sk" by auto
        with tgtp_truthy[OF this(2)] False have "jfalsy Tk" by (simp add: tv_def lookup_prop_def)
        with Some show ?thesis by (simp add: T0_def)
      qed
      from install_fresh[OF a la ha tp dist bound, of k] obtain h1 sp1 where
        i: "set_prop (h @ [Mapping []]) (VRef a) k (VRef (length h)) = Inr h1"
          "length h1 = Suc (length h)" "\<forall>x<length h. x \<noteq> a \<longrightarrow> h1 ! x = h ! x"
          "h1 ! a = Mapping (AList.update k (VRef (length h)) ps)"
          "tgt_props F h1 (AList.update k (VRef (length h)) ps) (AList.update k (JObj []) tk) sp1"
          "distinct sp1" "set sp1 \<subseteq> set sp \<union> {length h}"
        by blast
      have s: "set sp1 \<subseteq> set sp \<union> {length h..<length h1}" using i(7,2) by auto
      have m: "map_of (AList.update k (JObj []) tk) k = Some T0"
        by (simp add: T0 map_of_update_same)
      have u: "\<forall>X. AList.update k X (AList.update k (JObj []) tk) = AList.update k X tk"
        by (simp add: update_update_same)
      have c: "(if \<not> truthy tv
         then (case alloc h (Mapping []) of (a', h0) \<Rightarrow> set_prop h0 (VRef a) k (VRef a'))
         else Inr h) = Inr h1"
        using False i(1) by (simp add: alloc_def)
      have l: "length h \<le> length h1" using i(2) by simp
      from c l i(3,4,5,6) s m u show ?thesis by blast
    qed
    then obtain h1 ps1 tk1 spA where
      c1: "(if \<not> truthy tv
         then (case alloc h (Mapping []) of (a', h0) \<Rightarrow> set_prop h0 (VRef a) k (VRef a'))
         else Inr h) = Inr h1"
      and len1: "length h \<le> length h1" and fr1: "\<forall>x<length h. x \<noteq> a \<longrightarrow> h1 ! x = h ! x"
      and a1: "h1 ! a = Mapping ps1" and tp1: "tgt_props F h1 ps1 tk1 spA"
      and dA: "distinct spA" and sA: "set spA \<subseteq> set sp \<union> {length h..<length h1}"
      and m1: "map_of tk1 k = Some T0"
      and u1: "\<forall>X. AList.update k X tk1 = AList.update k X tk"
      by blast
    have la1: "a < length h1" using la len1 by simp
    have "a \<notin> {length h..<length h1}" using la by simp
    then have aA: "a \<notin> set spA" using sA asp by blast
    have bound1: "\<forall>x\<in>F. x < length h1" using bound len1 by auto
    have fF1: "\<forall>x\<in>F. x < length h \<longrightarrow> h1 ! x = h ! x" using fr1 a by blast
    have b1: "h1 ! b = Mapping qs" using fr1 lb ab hb by simp
    have fp1: "frep_props F h1 qs skvs" by (rule frep_frame(3)[OF len1 fF1 fp])
    have fsv1: "frep F h1 sv Sk" by (rule frep_frame(1)[OF len1 fF1 fsv])
    have gs1: "get_prop h1 (VRef b) k = Inr sv"
      using lb len1 b1 sv by (simp add: cell_def lookup_prop_def)
    from child_update[OF tp1 dA, of k] m1 obtain sk1 tv1 where
      sks1: "set sk1 \<subseteq> set spA" and dk1: "distinct sk1"
      and tv1: "map_of ps1 k = Some tv1" and ch1: "tgtp F h1 tv1 T0 sk1"
      and cl1: "\<And>h2 v T' sv. length h1 \<le> length h2 \<Longrightarrow> (\<forall>x\<in>F. x < length h1 \<longrightarrow> h2 ! x = h1 ! x)
        \<Longrightarrow> (\<forall>x\<in>set spA - set sk1. h2 ! x = h1 ! x)
        \<Longrightarrow> tgtp F h2 v T' sv \<Longrightarrow> distinct sv \<Longrightarrow> set sv \<subseteq> set sk1 \<union> {length h1..<length h2}
        \<Longrightarrow> (\<exists>sp'. tgt_props F h2 (AList.update k v ps1) (AList.update k T' tk1) sp' \<and> distinct sp'
               \<and> set sp' \<subseteq> (set spA - set sk1) \<union> set sv)"
      by auto
    have gt1: "get_prop h1 (VRef a) k = Inr tv1"
      using la1 a1 tv1 by (simp add: cell_def lookup_prop_def)
    from IH[OF ch1 dk1 fsv1 wf fuel bound1] obtain h2 sk2 where
      mg: "mergeConfigs m h1 tv1 [sv] = Inr (tv1, h2)"
      and ch2: "tgtp F h2 tv1 (jmerge T0 Sk) sk2" and dk2: "distinct sk2"
      and len2: "length h1 \<le> length h2"
      and sub2: "set sk2 \<subseteq> set sk1 \<union> {length h1..<length h2}"
      and fr2: "\<forall>x<length h1. x \<notin> set sk1 \<longrightarrow> h2 ! x = h1 ! x"
      by blast
    note spA = tgtp_spine(2)[OF tp1] and spk1 = tgtp_spine(1)[OF ch1]
    have fF2: "\<forall>x\<in>F. x < length h1 \<longrightarrow> h2 ! x = h1 ! x" using fr2 spk1 by blast
    have fs2: "\<forall>x\<in>set spA - set sk1. h2 ! x = h1 ! x" using fr2 spA by blast
    from cl1[OF len2 fF2 fs2 ch2 dk2 sub2] obtain spB where
      tB: "tgt_props F h2 (AList.update k tv1 ps1) (AList.update k (jmerge T0 Sk) tk1) spB"
      and dB: "distinct spB" and sB: "set spB \<subseteq> (set spA - set sk1) \<union> set sk2"
      by blast
    have psB: "AList.update k tv1 ps1 = ps1" by (rule update_same_value[OF tv1])
    have tkB: "AList.update k (jmerge T0 Sk) tk1 = AList.update k (jmerge T0 Sk) tk"
      using u1 by simp
    have tB': "tgt_props F h2 ps1 (AList.update k (jmerge T0 Sk) tk) spB"
      using tB unfolding psB tkB .
    have a2: "h2 ! a = Mapping ps1" using fr2 la1 aA sks1 a1 by auto
    have la2: "a < length h2" using la1 len2 by simp
    have b2: "h2 ! b = Mapping qs" using fF2 b lb len1 b1 by auto
    have fp2: "frep_props F h2 qs skvs" by (rule frep_frame(3)[OF len2 fF2 fp1])
    have bound2: "\<forall>x\<in>F. x < length h2" using bound1 len2 by auto
    have "a \<notin> {length h1..<length h2}" using la1 by simp
    then have "a \<notin> set sk2" using sub2 sks1 aA by blast
    then have aB: "a \<notin> set spB" using sB aA by blast
    with dB have distB: "distinct (a # spB)" by simp
    from Cons.IH[OF la2 a2 tB' distB b2 fp2 bound2 rest]
    obtain h' ps' sp' where
      r: "merge_props m h2 (VRef a) (VRef b) (map fst rest) = Inr h'" "h' ! a = Mapping ps'"
        "tgt_props F h' ps' (jmerge_props (AList.update k (jmerge T0 Sk) tk) rest) sp'"
        "distinct (a # sp')"
        "length h2 \<le> length h'" "set sp' \<subseteq> set spB \<union> {length h2..<length h'}"
        "\<forall>x<length h2. x \<notin> set (a # spB) \<longrightarrow> h' ! x = h2 ! x"
      by blast
    have step: "merge_props m h (VRef a) (VRef b) (map fst (kv # rest)) = Inr h'"
      using gs io True gt c1 gt1 gs1 mg r(1) kv by simp
    have jm: "jmerge_props tk (kv # rest)
        = jmerge_props (AList.update k (jmerge T0 Sk) tk) rest"
      using True kv by (simp add: T0_def)
    have len: "length h \<le> length h'" using len1 len2 r(5) by simp
    have sub: "set sp' \<subseteq> set sp \<union> {length h..<length h'}"
    proof
      fix x assume "x \<in> set sp'"
      with r(6) have "x \<in> set spB \<or> x \<in> {length h2..<length h'}" by blast
      then have "x \<in> set spA \<or> x \<in> {length h1..<length h2} \<or> x \<in> {length h2..<length h'}"
        using sB sub2 sks1 by blast
      then have "x \<in> set sp \<or> x \<in> {length h..<length h1} \<or> x \<in> {length h1..<length h2}
          \<or> x \<in> {length h2..<length h'}"
        using sA by blast
      then show "x \<in> set sp \<union> {length h..<length h'}"
        using len1 len2 r(5) by auto
    qed
    have frm: "\<forall>x<length h. x \<notin> set (a # sp) \<longrightarrow> h' ! x = h ! x"
    proof (intro allI impI)
      fix x assume x: "x < length h" "x \<notin> set (a # sp)"
      then have xa: "x \<noteq> a" and xsp: "x \<notin> set sp" by auto
      have xn1: "x \<notin> {length h..<length h1}" using x(1) by simp
      have xn2: "x \<notin> {length h1..<length h2}" using x(1) len1 by simp
      have xA: "x \<notin> set spA" using sA xsp xn1 by blast
      then have xk1: "x \<notin> set sk1" using sks1 by blast
      have xk2: "x \<notin> set sk2" using sub2 xk1 xn2 by blast
      have xB: "x \<notin> set spB" using sB xA xk2 by blast
      have "h' ! x = h2 ! x" using r(7) x(1) len1 len2 xa xB by simp
      also have "\<dots> = h1 ! x" using fr2 x(1) len1 xk1 by simp
      also have "\<dots> = h ! x" using fr1 x(1) xa by simp
      finally show "h' ! x = h ! x" .
    qed
    from step r(2,3,4) len sub frm show ?thesis unfolding jm by blast
  qed
qed

lemma merge_general:
  "tgtp F h t T sp \<Longrightarrow> distinct sp \<Longrightarrow> frep F h s S \<Longrightarrow> jwf S \<Longrightarrow> depth S + 2 \<le> m
   \<Longrightarrow> \<forall>x\<in>F. x < length h
   \<Longrightarrow> \<exists>h' sp'. mergeConfigs m h t [s] = Inr (t, h') \<and> tgtp F h' t (jmerge T S) sp'
          \<and> distinct sp' \<and> length h \<le> length h'
          \<and> set sp' \<subseteq> set sp \<union> {length h..<length h'}
          \<and> (\<forall>x<length h. x \<notin> set sp \<longrightarrow> h' ! x = h ! x)"
proof (induction m arbitrary: h t s T S sp)
  case 0
  then show ?case by simp
next
  case (Suc m)
  from Suc.prems(5) obtain m' where m': "m = Suc m'" by (cases m) auto
  show ?case
  proof (cases "is_mapping T \<and> is_mapping S")
    case True
    then obtain tk skvs where T: "T = JObj tk" and S: "S = JObj skvs"
      by (cases T; cases S) auto
    from Suc.prems(1) T obtain a ps sp0 where
      t: "t = VRef a" and a: "a \<notin> F" "a < length h" "h ! a = Mapping ps"
      and sp: "sp = a # sp0" and tp: "tgt_props F h ps tk sp0" by auto
    from Suc.prems(3) S obtain b qs where
      s: "s = VRef b" and b: "b \<in> F" "b < length h" "h ! b = Mapping qs"
      and fp: "frep_props F h qs skvs" by auto
    from Suc.prems(4) S have dk: "distinct (map fst skvs)" and wfp: "jwf_props skvs" by auto
    from Suc.prems(5) S have fuel: "depth_props skvs + 2 \<le> m" by simp
    have rest: "\<forall>kv\<in>set skvs. map_of skvs (fst kv) = Some (snd kv) \<and> jwf (snd kv)
            \<and> depth (snd kv) + 2 \<le> m"
    proof
      fix kv assume kv: "kv \<in> set skvs"
      have "map_of skvs (fst kv) = Some (snd kv)" using dk kv by simp
      moreover have "jwf (snd kv)" by (rule jwf_props_member[OF wfp kv])
      moreover have "depth (snd kv) + 2 \<le> m" using depth_props_member[OF kv] fuel by simp
      ultimately show "map_of skvs (fst kv) = Some (snd kv) \<and> jwf (snd kv)
            \<and> depth (snd kv) + 2 \<le> m" by simp
    qed
    have keys: "own_keys h s = Inr (map fst skvs)"
      using s b frep_props_keys[OF fp] by (simp add: cell_def)
    have dist: "distinct (a # sp0)" using Suc.prems(2) sp by simp
    from merge_props_general[where F = F and m = m, OF Suc.IH a(1) b(1) a(2,3) tp dist b(3) fp
        Suc.prems(6) rest]
    obtain h' ps' sp' where
      r: "merge_props m h (VRef a) (VRef b) (map fst skvs) = Inr h'" "h' ! a = Mapping ps'"
        "tgt_props F h' ps' (jmerge_props tk skvs) sp'" "distinct (a # sp')"
        "length h \<le> length h'" "set sp' \<subseteq> set sp0 \<union> {length h..<length h'}"
        "\<forall>x<length h. x \<notin> set (a # sp0) \<longrightarrow> h' ! x = h ! x"
      by blast
    have io: "isObject h t" "isObject h s"
      using tgtp_isObject[OF Suc.prems(1)] frep_isObject[OF Suc.prems(3)] T S by auto
    have c: "mergeConfigs (Suc m) h t [s] = Inr (t, h')"
      using io keys r(1) t s m' by simp
    have tg: "tgtp F h' t (jmerge T S) (a # sp')"
      using T S t a r(2,3,5) by auto
    have sub: "set (a # sp') \<subseteq> set sp \<union> {length h..<length h'}" using r(6) sp by auto
    from c tg r(4,5) sub r(7) sp show ?thesis by blast
  next
    case False
    then have "\<not> (isObject h t \<and> isObject h s)"
      using tgtp_isObject[OF Suc.prems(1)] frep_isObject[OF Suc.prems(3)] by simp
    then have c: "mergeConfigs (Suc m) h t [s] = Inr (t, h)" using m' by auto
    have "jmerge T S = T"
      using False jmerge_not_mapping jmerge_target_not_mapping by blast
    with c Suc.prems(1,2) show ?thesis by (intro exI[of _ h] exI[of _ sp]) simp
  qed
qed


subsection \<open>The walk along a path\<close>

lemma tgtp_typeof: "tgtp F h v T sp \<Longrightarrow> (typeof v = ''object'') = jobject T"
  by (cases T) auto

lemma frep_typeof_object: "frep F h v T \<Longrightarrow> (typeof v = ''object'') = jobject T"
  by (cases T) auto

lemma jobject_jchild [simp]: "jobject (jchild tk p)"
  by (simp add: jchild_def split: option.splits)

lemma jobject_jcreate [simp]: "jobject (jcreate T ps) = jobject T"
  by (cases T; cases ps) auto

lemma jfind_nonempty_mapping:
  "jfind T (p # ps) = Some S \<Longrightarrow> \<exists>tk. T = JObj tk"
  by (cases T) auto

lemma jfind_jobject: "jfind (JObj tk) segs = Some S \<Longrightarrow> segs \<noteq> [] \<Longrightarrow> jobject S"
proof (induction segs arbitrary: tk)
  case Nil
  then show ?case by simp
next
  case (Cons p ps)
  show ?case
  proof (cases ps)
    case Nil
    with Cons.prems show ?thesis by auto
  next
    case (Cons q qs)
    with Cons.prems(1) have f: "jfind (jchild tk p) (q # qs) = Some S" by simp
    from jfind_nonempty_mapping[OF f] obtain tk' where "jchild tk p = JObj tk'" by auto
    with f Cons.IH[of tk'] Cons show ?thesis by simp
  qed
qed

lemma walk_create_tree:
  "tgtp F h (VRef a) (JObj tk) sp \<Longrightarrow> distinct sp \<Longrightarrow> \<forall>x\<in>F. x < length h
   \<Longrightarrow> jfind (JObj tk) segs = Some S \<Longrightarrow> segs \<noteq> [] \<Longrightarrow>
   \<exists>root h1 sp1 spr. walk_create h (VRef a) segs = Inr (root, h1)
      \<and> tgtp F h1 (VRef a) (jcreate (JObj tk) segs) sp1 \<and> distinct sp1
      \<and> length h \<le> length h1 \<and> set sp1 \<subseteq> set sp \<union> {length h..<length h1}
      \<and> (\<forall>x<length h. x \<notin> set sp \<longrightarrow> h1 ! x = h ! x)
      \<and> tgtp F h1 root S spr \<and> set spr \<subseteq> set sp \<union> {length h..<length h1} \<and> a \<notin> set spr"
proof (induction segs arbitrary: a tk sp h)
  case Nil
  then show ?case by simp
next
  case (Cons p rest)
  from Cons.prems(1) obtain ps sp0 where
    a: "a \<notin> F" "a < length h" "h ! a = Mapping ps"
    and sp: "sp = a # sp0" and tp: "tgt_props F h ps tk sp0" by auto
  note bound = Cons.prems(3)
  from Cons.prems(2) sp have dist: "distinct (a # sp0)" by simp
  then have dsp: "distinct sp0" and asp: "a \<notin> set sp0" by auto
  define tv where "tv = lookup_prop ps p"
  define T0 where "T0 = jchild tk p"
  have gt: "get_prop h (VRef a) p = Inr tv"
    using a by (simp add: cell_def tv_def)
  from child_update[OF tp dsp, of p] obtain sk where
    sks: "set sk \<subseteq> set sp0"
    and cur: "case map_of tk p of None \<Rightarrow> sk = [] \<and> map_of ps p = None
         | Some Tk \<Rightarrow> \<exists>tv. map_of ps p = Some tv \<and> tgtp F h tv Tk sk"
    by blast
  have norm: "\<exists>h1 ps1 tk1 spA.
      (if typeof tv \<noteq> ''object''
       then (case alloc h (Mapping []) of (a', h0) \<Rightarrow> set_prop h0 (VRef a) p (VRef a'))
       else Inr h) = Inr h1
      \<and> length h \<le> length h1 \<and> (\<forall>x<length h. x \<noteq> a \<longrightarrow> h1 ! x = h ! x)
      \<and> h1 ! a = Mapping ps1 \<and> tgt_props F h1 ps1 tk1 spA \<and> distinct spA
      \<and> set spA \<subseteq> set sp0 \<union> {length h..<length h1}
      \<and> map_of tk1 p = Some T0 \<and> (\<forall>X. AList.update p X tk1 = AList.update p X tk)"
  proof (cases "typeof tv = ''object''")
    case True
    then obtain Tk where Tk: "map_of tk p = Some Tk" "map_of ps p = Some tv"
        "tgtp F h tv Tk sk"
      using cur by (cases "map_of tk p") (auto simp: tv_def lookup_prop_def)
    from tgtp_typeof[OF Tk(3)] True have "jobject Tk" by simp
    with Tk have "map_of tk p = Some T0" by (simp add: T0_def jchild_def)
    with True a tp dsp show ?thesis
      by (intro exI[of _ h] exI[of _ ps] exI[of _ tk] exI[of _ sp0]) simp
  next
    case False
    have T0: "T0 = JObj []"
    proof (cases "map_of tk p")
      case None
      then show ?thesis by (simp add: T0_def jchild_def)
    next
      case (Some Tk)
      with cur obtain tv' where "map_of ps p = Some tv'" "tgtp F h tv' Tk sk" by auto
      with tgtp_typeof[OF this(2)] False have "\<not> jobject Tk"
        by (simp add: tv_def lookup_prop_def)
      with Some show ?thesis by (simp add: T0_def jchild_def)
    qed
    from install_fresh[OF a tp dist bound, of p] obtain h1 sp1 where
      i: "set_prop (h @ [Mapping []]) (VRef a) p (VRef (length h)) = Inr h1"
        "length h1 = Suc (length h)" "\<forall>x<length h. x \<noteq> a \<longrightarrow> h1 ! x = h ! x"
        "h1 ! a = Mapping (AList.update p (VRef (length h)) ps)"
        "tgt_props F h1 (AList.update p (VRef (length h)) ps) (AList.update p (JObj []) tk) sp1"
        "distinct sp1" "set sp1 \<subseteq> set sp0 \<union> {length h}"
      by blast
    have s: "set sp1 \<subseteq> set sp0 \<union> {length h..<length h1}" using i(7,2) by auto
    have m: "map_of (AList.update p (JObj []) tk) p = Some T0"
      by (simp add: T0 map_of_update_same)
    have u: "\<forall>X. AList.update p X (AList.update p (JObj []) tk) = AList.update p X tk"
      by (simp add: update_update_same)
    have c: "(if typeof tv \<noteq> ''object''
       then (case alloc h (Mapping []) of (a', h0) \<Rightarrow> set_prop h0 (VRef a) p (VRef a'))
       else Inr h) = Inr h1"
      using False i(1) by (simp add: alloc_def)
    have l: "length h \<le> length h1" using i(2) by simp
    from c l i(3,4,5,6) s m u show ?thesis by blast
  qed
  then obtain h1 ps1 tk1 spA where
    c1: "(if typeof tv \<noteq> ''object''
       then (case alloc h (Mapping []) of (a', h0) \<Rightarrow> set_prop h0 (VRef a) p (VRef a'))
       else Inr h) = Inr h1"
    and len1: "length h \<le> length h1" and fr1: "\<forall>x<length h. x \<noteq> a \<longrightarrow> h1 ! x = h ! x"
    and a1: "h1 ! a = Mapping ps1" and tp1: "tgt_props F h1 ps1 tk1 spA"
    and dA: "distinct spA" and sA: "set spA \<subseteq> set sp0 \<union> {length h..<length h1}"
    and m1: "map_of tk1 p = Some T0"
    and u1: "\<forall>X. AList.update p X tk1 = AList.update p X tk"
    by blast
  have la1: "a < length h1" using a(2) len1 by simp
  have "a \<notin> {length h..<length h1}" using a(2) by simp
  then have aA: "a \<notin> set spA" using sA asp by blast
  have bound1: "\<forall>x\<in>F. x < length h1" using bound len1 by auto
  from child_update[OF tp1 dA, of p] m1 obtain sk1 tv1 where
    sks1: "set sk1 \<subseteq> set spA" and dk1: "distinct sk1"
    and tv1: "map_of ps1 p = Some tv1" and ch1: "tgtp F h1 tv1 T0 sk1"
    and cl1: "\<And>h2 v T' sv. length h1 \<le> length h2 \<Longrightarrow> (\<forall>x\<in>F. x < length h1 \<longrightarrow> h2 ! x = h1 ! x)
      \<Longrightarrow> (\<forall>x\<in>set spA - set sk1. h2 ! x = h1 ! x)
      \<Longrightarrow> tgtp F h2 v T' sv \<Longrightarrow> distinct sv \<Longrightarrow> set sv \<subseteq> set sk1 \<union> {length h1..<length h2}
      \<Longrightarrow> (\<exists>sp'. tgt_props F h2 (AList.update p v ps1) (AList.update p T' tk1) sp' \<and> distinct sp'
             \<and> set sp' \<subseteq> (set spA - set sk1) \<union> set sv)"
    by auto
  have gt1: "get_prop h1 (VRef a) p = Inr tv1"
    using la1 a1 tv1 by (simp add: cell_def lookup_prop_def)
  have ak1: "a \<notin> set sk1" using sks1 aA by blast
  have frm1: "\<forall>x<length h. x \<notin> set sp \<longrightarrow> h1 ! x = h ! x" using fr1 sp by simp
  have sAsp: "set spA \<subseteq> set sp \<union> {length h..<length h1}" using sA sp by auto
  show ?case
  proof (cases rest)
    case Nil
    have w: "walk_create h (VRef a) (p # rest) = Inr (tv1, h1)"
      using gt c1 gt1 Nil by simp
    have tk1: "AList.update p T0 tk = tk1"
      using u1 update_same_value[OF m1] by metis
    have jc: "jcreate (JObj tk) (p # rest) = JObj tk1"
      using Nil tk1 by (simp add: T0_def)
    have tg: "tgtp F h1 (VRef a) (JObj tk1) (a # spA)"
      using a(1) la1 a1 tp1 by simp
    have S: "S = T0" using Cons.prems(4) Nil by (simp add: T0_def)
    have d: "distinct (a # spA)" using aA dA by simp
    have s1: "set (a # spA) \<subseteq> set sp \<union> {length h..<length h1}" using sAsp sp by auto
    have s2: "set sk1 \<subseteq> set sp \<union> {length h..<length h1}" using sks1 sAsp by blast
    from w tg d len1 s1 frm1 ch1 s2 ak1 show ?thesis unfolding jc S by blast
  next
    case (Cons q qs)
    from Cons.prems(4) Cons have f: "jfind T0 rest = Some S"
      by (simp add: T0_def)
    from jfind_nonempty_mapping[OF f[unfolded Cons]] obtain tk' where T0': "T0 = JObj tk'"
      by auto
    from ch1 T0' obtain a' where tv1': "tv1 = VRef a'" by auto
    have rne: "rest \<noteq> []" using Cons by simp
    from Cons.IH[OF ch1[unfolded T0' tv1'] dk1 bound1 f[unfolded T0'] rne]
    obtain root h2 sk2 spr where
      w2: "walk_create h1 (VRef a') rest = Inr (root, h2)"
      and ch2: "tgtp F h2 (VRef a') (jcreate (JObj tk') rest) sk2" and dk2: "distinct sk2"
      and len2: "length h1 \<le> length h2"
      and sub2: "set sk2 \<subseteq> set sk1 \<union> {length h1..<length h2}"
      and fr2: "\<forall>x<length h1. x \<notin> set sk1 \<longrightarrow> h2 ! x = h1 ! x"
      and rt: "tgtp F h2 root S spr"
      and spr: "set spr \<subseteq> set sk1 \<union> {length h1..<length h2}"
      by blast
    note spnA = tgtp_spine(2)[OF tp1] and spk1 = tgtp_spine(1)[OF ch1]
    have fF2: "\<forall>x\<in>F. x < length h1 \<longrightarrow> h2 ! x = h1 ! x" using fr2 spk1 by blast
    have fs2: "\<forall>x\<in>set spA - set sk1. h2 ! x = h1 ! x" using fr2 spnA by blast
    from cl1[OF len2 fF2 fs2 ch2[folded tv1'] dk2 sub2] obtain spB where
      tB: "tgt_props F h2 (AList.update p tv1 ps1)
             (AList.update p (jcreate (JObj tk') rest) tk1) spB"
      and dB: "distinct spB" and sB: "set spB \<subseteq> (set spA - set sk1) \<union> set sk2"
      by blast
    have psB: "AList.update p tv1 ps1 = ps1" by (rule update_same_value[OF tv1])
    have tkB: "AList.update p (jcreate (JObj tk') rest) tk1
        = AList.update p (jcreate (JObj tk') rest) tk"
      using u1 by simp
    have tB': "tgt_props F h2 ps1 (AList.update p (jcreate (JObj tk') rest) tk) spB"
      using tB unfolding psB tkB .
    have a2: "h2 ! a = Mapping ps1" using fr2 la1 ak1 a1 by auto
    have la2: "a < length h2" using la1 len2 by simp
    have an2: "a \<notin> {length h1..<length h2}" using la1 by simp
    then have "a \<notin> set sk2" using sub2 ak1 by blast
    then have aB: "a \<notin> set spB" using sB aA by blast
    have jc: "jcreate (JObj tk) (p # rest) = JObj (AList.update p (jcreate (JObj tk') rest) tk)"
      using T0' by (simp add: T0_def)
    have tg: "tgtp F h2 (VRef a) (jcreate (JObj tk) (p # rest)) (a # spB)"
      unfolding jc using a(1) la2 a2 tB' by simp
    have w: "walk_create h (VRef a) (p # rest) = Inr (root, h2)"
      using gt c1 gt1 tv1' w2 by simp
    have d: "distinct (a # spB)" using aB dB by simp
    have len: "length h \<le> length h2" using len1 len2 by simp
    have up: "set sk1 \<union> {length h1..<length h2} \<subseteq> set sp \<union> {length h..<length h2}"
    proof
      fix x assume "x \<in> set sk1 \<union> {length h1..<length h2}"
      then have "x \<in> set spA \<or> x \<in> {length h1..<length h2}" using sks1 by blast
      then have "x \<in> set sp \<or> x \<in> {length h..<length h1} \<or> x \<in> {length h1..<length h2}"
        using sAsp by blast
      then show "x \<in> set sp \<union> {length h..<length h2}" using len1 len2 by auto
    qed
    have s1: "set (a # spB) \<subseteq> set sp \<union> {length h..<length h2}"
    proof
      fix x assume "x \<in> set (a # spB)"
      then have "x = a \<or> x \<in> set spA \<or> x \<in> set sk2" using sB by auto
      then have "x \<in> set sp \<or> x \<in> {length h..<length h1} \<or> x \<in> set sk1 \<union> {length h1..<length h2}"
        using sp sAsp sub2 by auto
      then show "x \<in> set sp \<union> {length h..<length h2}" using up len1 len2 by auto
    qed
    have s2: "set spr \<subseteq> set sp \<union> {length h..<length h2}" using spr up by blast
    have ar: "a \<notin> set spr" using spr ak1 an2 by blast
    have frm: "\<forall>x<length h. x \<notin> set sp \<longrightarrow> h2 ! x = h ! x"
    proof (intro allI impI)
      fix x assume x: "x < length h" "x \<notin> set sp"
      have xn1: "x \<notin> {length h..<length h1}" using x(1) by simp
      have xA: "x \<notin> set spA" using sAsp x(2) xn1 by blast
      then have xk1: "x \<notin> set sk1" using sks1 by blast
      have "h2 ! x = h1 ! x" using fr2 x(1) len1 xk1 by simp
      also have "\<dots> = h ! x" using frm1 x by simp
      finally show "h2 ! x = h ! x" .
    qed
    from w tg d len s1 frm rt s2 ar show ?thesis by blast
  qed
qed

lemma walk_existing:
  "frep G h (VRef a) (jcreate (JObj tk) segs) \<Longrightarrow> jfind (JObj tk) segs = Some S
   \<Longrightarrow> \<exists>r. walk_create h (VRef a) segs = Inr (r, h)"
proof (induction segs arbitrary: a tk)
  case Nil
  then show ?case by simp
next
  case (Cons p rest)
  let ?X = "jcreate (jchild tk p) rest"
  from Cons.prems(1) obtain ps where
    a: "a < length h" "h ! a = Mapping ps"
    and fp: "frep_props G h ps (AList.update p ?X tk)" by auto
  have "map_of (AList.update p ?X tk) p = Some ?X" by (rule map_of_update_same)
  from frep_props_lookup[OF fp this] obtain v where v: "map_of ps p = Some v"
    and fv: "frep G h v ?X" by auto
  have ty: "typeof v = ''object''" using frep_typeof_object[OF fv] by simp
  have gt: "get_prop h (VRef a) p = Inr v"
    using a v by (simp add: cell_def lookup_prop_def)
  show ?case
  proof (cases rest)
    case Nil
    with gt ty show ?thesis by simp
  next
    case (Cons q qs)
    from Cons.prems(2) Cons have f: "jfind (jchild tk p) rest = Some S" by simp
    from jfind_nonempty_mapping[OF f[unfolded Cons]] obtain tk' where T0: "jchild tk p = JObj tk'"
      by auto
    from fv T0 Cons obtain a' where v': "v = VRef a'" by auto
    from Cons.IH[OF fv[unfolded T0 v'] f[unfolded T0]] obtain r where
      "walk_create h (VRef a') rest = Inr (r, h)" by blast
    with gt ty v' show ?thesis by simp
  qed
qed

subsection \<open>Heaps that agree on a set of cells\<close>

lemma agree_refl: "agree A h h"
  by (simp add: agree_def)

lemma agree_trans: "agree A h h1 \<Longrightarrow> agree A h1 h2 \<Longrightarrow> agree A h h2"
  by (auto simp: agree_def)

lemma agree_mono: "agree A h h' \<Longrightarrow> B \<subseteq> A \<Longrightarrow> agree B h h'"
  by (auto simp: agree_def)

lemma agree_append: "agree A h (h @ new)"
  by (simp add: agree_def nth_append)

lemma agree_update: "a \<notin> A \<Longrightarrow> agree A h (h[a := ob])"
  unfolding agree_def by (metis length_list_update nth_list_update_neq order_refl)

lemma agree_length: "agree A h h' \<Longrightarrow> length h \<le> length h'"
  by (simp add: agree_def)

lemma agree_nth: "agree A h h' \<Longrightarrow> x \<in> A \<Longrightarrow> x < length h \<Longrightarrow> h' ! x = h ! x"
  by (simp add: agree_def)

lemma frep_agree:
  shows "frep F h v T \<Longrightarrow> agree F h h' \<Longrightarrow> frep F h' v T"
    and "frep_props F h ps kvs \<Longrightarrow> agree F h h' \<Longrightarrow> frep_props F h' ps kvs"
  using frep_frame(1,3)[of h h' F] by (auto simp: agree_def)

lemma tgtp_agree:
  shows "tgtp F h v T sp \<Longrightarrow> agree (F \<union> set sp) h h' \<Longrightarrow> tgtp F h' v T sp"
    and "tgt_props F h ps kvs sp \<Longrightarrow> agree (F \<union> set sp) h h' \<Longrightarrow> tgt_props F h' ps kvs sp"
proof -
  show "tgtp F h v T sp \<Longrightarrow> agree (F \<union> set sp) h h' \<Longrightarrow> tgtp F h' v T sp"
    using tgtp_frame(1)[of h h' F v T sp] tgtp_spine(1)[of F h v T sp]
    by (auto simp: agree_def)
  show "tgt_props F h ps kvs sp \<Longrightarrow> agree (F \<union> set sp) h h' \<Longrightarrow> tgt_props F h' ps kvs sp"
    using tgtp_frame(2)[of h h' F ps kvs sp] tgtp_spine(2)[of F h ps kvs sp]
    by (auto simp: agree_def)
qed

lemma tgtp_mono:
  shows "tgtp F h v T sp \<Longrightarrow> F \<subseteq> F' \<Longrightarrow> F' \<inter> set sp = {} \<Longrightarrow> tgtp F' h v T sp"
    and "tgt_props F h ps kvs sp \<Longrightarrow> F \<subseteq> F' \<Longrightarrow> F' \<inter> set sp = {} \<Longrightarrow> tgt_props F' h ps kvs sp"
proof (induction F h v T sp and F h ps kvs sp rule: tgtp_tgt_props.induct)
  case (5 F h v xs sp)
  then show ?case using frep_mono(1)[of F F' h v "JArr xs"] by simp
next
  case (6 F h v kvs sp)
  then show ?case by auto
next
  case (8 F h ps kv kvs sp)
  then show ?case by (auto, blast)
qed auto

lemma tgtp_frep_set:
  shows "tgtp F h v T sp \<Longrightarrow> F \<union> set sp \<subseteq> G \<Longrightarrow> frep G h v T"
    and "tgt_props F h ps kvs sp \<Longrightarrow> F \<union> set sp \<subseteq> G \<Longrightarrow> frep_props G h ps kvs"
proof (induction F h v T sp and F h ps kvs sp rule: tgtp_tgt_props.induct)
  case (5 F h v xs sp)
  then show ?case using frep_mono(1)[of F G h v "JArr xs"] by simp
next
  case (6 F h v kvs sp)
  then show ?case by auto
next
  case (8 F h ps kv kvs sp)
  then show ?case by auto
qed auto

lemma frep_props_update:
  "frep_props G h ps kvs \<Longrightarrow> frep G h v T
   \<Longrightarrow> frep_props G h (AList.update k v ps) (AList.update k T kvs)"
proof (induction kvs arbitrary: ps)
  case Nil
  then show ?case by simp
next
  case (Cons kv kvs)
  then obtain w ps' where ps: "ps = (fst kv, w) # ps'" "frep G h w (snd kv)"
      "frep_props G h ps' kvs" by auto
  show ?case
  proof (cases "fst kv = k")
    case True
    then have "AList.update k T (kv # kvs) = (k, T) # kvs" by (cases kv) auto
    with True ps Cons.prems(2) show ?thesis by simp
  next
    case False
    then have "AList.update k T (kv # kvs) = kv # AList.update k T kvs" by (cases kv) auto
    with False ps Cons.IH[OF ps(3) Cons.prems(2)] show ?thesis by simp
  qed
qed

lemma chain_at_frep:
  "chain_at n h c ps v \<Longrightarrow> frep G h v T \<Longrightarrow> {n..<length h} \<subseteq> G \<Longrightarrow> frep G h c (jchain ps T)"
proof (induction ps arbitrary: c)
  case Nil
  then show ?case by simp
next
  case (Cons p ps)
  then obtain a c' where c: "c = VRef a" "n \<le> a" "a < length h" "h ! a = Mapping [(p, c')]"
      "chain_at n h c' ps v"
    by (auto split: val.splits)
  from Cons.IH[OF c(5) Cons.prems(2,3)] c Cons.prems(3) show ?case by auto
qed

lemma jwf_jchain: "list_all plain_key ps \<Longrightarrow> jwf T \<Longrightarrow> jwf (jchain ps T)"
  by (induction ps) auto

lemma depth_jchain: "depth (jchain ps T) = length ps + depth T"
  by (induction ps) auto

lemma jwf_props_lookup: "jwf_props kvs \<Longrightarrow> map_of kvs k = Some v \<Longrightarrow> jwf v"
  by (induction kvs) (auto split: if_splits)

lemma jwf_jchild: "jwf (JObj tk) \<Longrightarrow> jwf (jchild tk p)"
  by (auto simp: jchild_def jwf_props_lookup split: option.splits)

lemma depth_jchild: "depth (jchild tk p) \<le> depth (JObj tk)"
  using depth_props_lookup[of tk p]
  by (auto simp: jchild_def split: option.splits dest: le_SucI)

lemma jfind_jwf: "jfind T segs = Some S \<Longrightarrow> jwf T \<Longrightarrow> jwf S"
proof (induction segs arbitrary: T)
  case Nil
  then show ?case by simp
next
  case (Cons p ps)
  from jfind_nonempty_mapping[OF Cons.prems(1)] obtain tk where T: "T = JObj tk" by auto
  with Cons.prems have "jfind (jchild tk p) ps = Some S" "jwf (jchild tk p)"
    using jwf_jchild by auto
  then show ?case by (rule Cons.IH)
qed

lemma jfind_depth: "jfind T segs = Some S \<Longrightarrow> depth S \<le> depth T"
proof (induction segs arbitrary: T)
  case Nil
  then show ?case by simp
next
  case (Cons p ps)
  from jfind_nonempty_mapping[OF Cons.prems(1)] obtain tk where T: "T = JObj tk" by auto
  with Cons.prems have "jfind (jchild tk p) ps = Some S" by simp
  from Cons.IH[OF this] depth_jchild[of tk p] T show ?case by simp
qed

subsection \<open>A section registered on a store that holds trees\<close>

lemma merge_agree:
  assumes "tgtp F h t T sp" "distinct sp" "frep F h s S" "jwf S" "depth S + 2 \<le> m"
    "\<forall>x\<in>F. x < length h"
  shows "\<exists>h' sp'. mergeConfigs m h t [s] = Inr (t, h') \<and> tgtp F h' t (jmerge T S) sp'
          \<and> distinct sp' \<and> set sp' \<subseteq> set sp \<union> {length h..<length h'}
          \<and> agree (- set sp) h h'"
  using merge_general[OF assms] unfolding agree_def by blast

lemma walk_agree:
  assumes "tgtp F h (VRef a) (JObj tk) sp" "distinct sp" "\<forall>x\<in>F. x < length h"
    "jfind (JObj tk) segs = Some S" "segs \<noteq> []"
  shows "\<exists>root h1 sp1 spr. walk_create h (VRef a) segs = Inr (root, h1)
      \<and> tgtp F h1 (VRef a) (jcreate (JObj tk) segs) sp1 \<and> distinct sp1
      \<and> set sp1 \<subseteq> set sp \<union> {length h..<length h1}
      \<and> agree (- set sp) h h1
      \<and> tgtp F h1 root S spr \<and> set spr \<subseteq> set sp \<union> {length h..<length h1} \<and> a \<notin> set spr"
  using walk_create_tree[OF assms] unfolding agree_def by blast

lemma frep_sub: "frep F h v T \<Longrightarrow> F \<subseteq> G \<Longrightarrow> frep G h v T"
  using frep_mono(1) by blast

lemma frep_props_sub: "frep_props F h ps kvs \<Longrightarrow> F \<subseteq> G \<Longrightarrow> frep_props G h ps kvs"
  using frep_mono(3) by blast

lemma tgtp_mapping_head:
  "tgtp F h (VRef a) (JObj tk) sp \<Longrightarrow>
     \<exists>ps sp'. sp = a # sp' \<and> a \<notin> F \<and> a < length h \<and> h ! a = Mapping ps \<and> tgt_props F h ps tk sp'"
  by auto

lemma root_not_defaults:
  assumes rt: "tgtp Fc h1 root S spr" and ob: "jobject S"
    and dF: "d \<notin> Fc" and dr: "d \<notin> set spr"
  shows "root \<noteq> VRef d"
proof (cases S)
  case (JObj x)
  with rt dr show ?thesis by auto
next
  case (JArr x)
  with rt dF show ?thesis by auto
qed (use rt ob in auto)


lemma configSection_tree:
  assumes cfg: "config s = VRef c" and tc: "tgtp Fc h (VRef c) (JObj kvs) spc"
    and dc: "distinct spc" and bc: "\<forall>x\<in>Fc. x < length h"
    and dfl: "defaultConfig s = VRef e" "e < length h" "h ! e = Mapping []"
    and td: "tgtp Fd h (VRef d) (JObj dkvs) spd" and dd: "distinct spd"
    and bd: "\<forall>x\<in>Fd. x < length h"
    and disj: "(Fc \<union> set spc) \<inter> (Fd \<union> set spd) = {}"
    and edisj: "e \<notin> Fc \<union> set spc \<union> Fd \<union> set spd"
    and wf: "jwf (JObj kvs)" "jwf (JObj dkvs)"
    and vp: "validatePath path = Inr ()" and ne: "path \<noteq> []"
    and segs: "split_dot path = p0 # rest" and plain: "list_all plain_key (p0 # rest)"
    and fnd: "jfind (JObj kvs) (p0 # rest) = Some S"
    and fuel: "depth (JObj kvs) + 2 \<le> lim" "length (p0 # rest) + depth (JObj dkvs) + 2 \<le> lim"
  shows "\<exists>h'. configSection lim s f h path (VRef d)
           = Inr (VRef d, h', f(configFileName s \<mapsto>
                Json (JObj (AList.update p0 (jchain rest (jmerge (JObj dkvs) S)) kvs))))
         \<and> stringify h' (VRef d) = Inr (Some (jmerge (JObj dkvs) S))
         \<and> getOrCreateConfigPath s h' path = Inr (VRef d, h')"
proof -
  let ?segs = "p0 # rest"
  let ?D = "JObj dkvs"
  let ?M = "jmerge ?D S"
  let ?Ad = "Fd \<union> set spd"
  note spc = tgtp_spine(1)[OF tc] and spd = tgtp_spine(1)[OF td]
  from tgtp_mapping_head[OF tc] obtain spc' where spc_hd: "spc = c # spc'"
    and cF: "c \<notin> Fc" and lc: "c < length h" by blast
  from tgtp_mapping_head[OF td] obtain spd' where spd_hd: "spd = d # spd'"
    and dF: "d \<notin> Fd" and ld: "d < length h" by blast
  have c_in: "c \<in> set spc" and d_in: "d \<in> set spd" using spc_hd spd_hd by auto
  have ob: "jobject S" by (rule jfind_jobject[OF fnd]) simp

  from walk_agree[OF tc dc bc fnd] obtain root h1 sp1 spr where
    w1: "walk_create h (VRef c) ?segs = Inr (root, h1)"
    and tc1: "tgtp Fc h1 (VRef c) (jcreate (JObj kvs) ?segs) sp1" and d1: "distinct sp1"
    and s1: "set sp1 \<subseteq> set spc \<union> {length h..<length h1}"
    and ag1: "agree (- set spc) h h1"
    and rt: "tgtp Fc h1 root S spr"
    and sr: "set spr \<subseteq> set spc \<union> {length h..<length h1}" and cr: "c \<notin> set spr"
    by blast
  have g1: "getOrCreateConfigPath s h path = Inr (root, h1)"
    using w1 ne vp segs cfg by (simp add: getOrCreateConfigPath_def)
  note len1 = agree_length[OF ag1]
  have Ad_sub: "?Ad \<subseteq> - set spc" using disj by auto
  have Ad_lt: "\<forall>x\<in>?Ad. x < length h" using bd spd by auto
  have td1: "tgtp Fd h1 (VRef d) ?D spd"
    by (rule tgtp_agree(1)[OF td agree_mono[OF ag1 Ad_sub]])
  have e1: "h1 ! e = Mapping []"
    using agree_nth[OF ag1, of e] edisj dfl by simp
  have d_spr: "d \<notin> set spr" using sr disj d_in ld by auto
  have d_Fc: "d \<notin> Fc" using disj d_in by auto
  have rd: "root \<noteq> VRef d" by (rule root_not_defaults[OF rt ob d_Fc d_spr])
  have e_spr: "e \<notin> set spr" using sr edisj dfl(2) by auto
  have e_sp1: "e \<notin> set sp1" using s1 edisj dfl(2) by auto
  have spr_spd: "set spr \<inter> set spd = {}" using sr disj spd by fastforce
  have sp1_spd: "set sp1 \<inter> set spd = {}" using s1 disj spd by fastforce
  note sprl = tgtp_spine(1)[OF rt] and sp1l = tgtp_spine(1)[OF tc1]

  obtain top h2 where wp: "wrap_path h1 (VRef d) (rev ?segs) = (top, h2)"
    by (cases "wrap_path h1 (VRef d) (rev ?segs)") auto
  from wrap_path_chain[OF wp] obtain new2 where h2: "h2 = h1 @ new2"
    and ch2: "chain_at (length h1) h2 top ?segs (VRef d)" by auto
  let ?G2 = "?Ad \<union> {length h1..<length h2}"
  have fd1: "frep ?Ad h1 (VRef d) ?D" by (rule tgtp_frep_set(1)[OF td1]) simp
  have "frep ?Ad h2 (VRef d) ?D" unfolding h2 by (rule frep_extend(1)[OF fd1])
  then have fd2: "frep ?G2 h2 (VRef d) ?D" by (rule frep_sub) blast
  have ftop: "frep ?G2 h2 top (jchain ?segs ?D)"
    by (rule chain_at_frep[OF ch2 fd2]) simp
  have te: "tgtp ?G2 h2 (VRef e) (JObj []) [e]"
    using edisj dfl(2) len1 e1 h2 by (simp add: nth_append)
  have len2: "length h1 \<le> length h2" using h2 by simp
  have b2: "\<forall>x\<in>?G2. x < length h2"
  proof
    fix x assume "x \<in> ?G2"
    then consider "x \<in> ?Ad" | "x \<in> {length h1..<length h2}" by blast
    then show "x < length h2"
    proof cases
      case 1
      with Ad_lt have "x < length h" by blast
      with len1 len2 show ?thesis by simp
    next
      case 2
      then show ?thesis by simp
    qed
  qed
  have fuel2: "depth (jchain ?segs ?D) + 2 \<le> lim" using fuel(2) by (simp add: depth_jchain)
  from merge_agree[OF te _ ftop jwf_jchain[OF plain wf(2)] fuel2 b2] obtain h3 where
    m3: "mergeConfigs lim h2 (VRef e) [top] = Inr (VRef e, h3)"
    and ag3: "agree (- set [e]) h2 h3"
    by auto
  have ad: "addDefaultConfig lim s h1 path (VRef d) = Inr h3"
    using vp segs wp m3 dfl(1) by (simp add: addDefaultConfig_def)
  have ag3': "agree (- {e}) h2 h3" using ag3 by simp
  have ag12: "agree (- {e}) h1 h2" unfolding h2 by (rule agree_append)
  have ag13: "agree (- {e}) h1 h3" by (rule agree_trans[OF ag12 ag3'])
  note len3 = agree_length[OF ag13]

  define S' where "S' = (if S = JNull then JObj [] else S)"
  define src where "src = (if truthy root then root else VRef (length h3))"
  define h4 where "h4 = (if truthy root then h3 else h3 @ [Mapping []])"
  have srcq: "(if truthy root then (root, h3)
               else (case alloc h3 (Mapping []) of (a, h') \<Rightarrow> (VRef a, h'))) = (src, h4)"
    by (simp add: src_def h4_def alloc_def)
  obtain new4 where h4: "h4 = h3 @ new4" by (cases "truthy root") (simp_all add: h4_def)
  have ag34: "agree A h3 h4" for A unfolding h4 by (rule agree_append)
  have len4: "length h3 \<le> length h4" using h4 by simp
  let ?Gs = "Fc \<union> set spr \<union> {length h3..<length h4}"
  have Gr_sub: "Fc \<union> set spr \<subseteq> - {e}" using edisj e_spr by auto
  have fs4: "frep ?Gs h4 src S'"
  proof (cases "truthy root")
    case True
    with rt have "S \<noteq> JNull" by auto
    then have S': "S' = S" by (simp add: S'_def)
    have "frep (Fc \<union> set spr) h1 root S" by (rule tgtp_frep_set(1)[OF rt]) simp
    from frep_agree(1)[OF this agree_mono[OF ag13 Gr_sub]]
    have "frep (Fc \<union> set spr) h3 root S" .
    then have "frep ?Gs h3 root S" by (rule frep_sub) blast
    with True S' show ?thesis by (simp add: src_def h4_def)
  next
    case False
    with rt ob have "S = JNull" by (cases S) auto
    then have S': "S' = JObj []" by (simp add: S'_def)
    with False show ?thesis by (simp add: src_def h4_def)
  qed
  let ?F4 = "Fd \<union> ?Gs"
  have ag14d: "agree ?Ad h1 h4"
    using agree_trans[OF agree_mono[OF ag13, of ?Ad] ag34] edisj by auto
  have td4': "tgtp Fd h4 (VRef d) ?D spd" by (rule tgtp_agree(1)[OF td1 ag14d])
  have F4_spd: "?F4 \<inter> set spd = {}"
  proof -
    have "Fd \<inter> set spd = {}" using spd by auto
    moreover have "Fc \<inter> set spd = {}" using disj by auto
    moreover have "{length h3..<length h4} \<inter> set spd = {}" using spd len1 len3 by fastforce
    ultimately show ?thesis using spr_spd by auto
  qed
  have td4: "tgtp ?F4 h4 (VRef d) ?D spd"
    by (rule tgtp_mono(1)[OF td4' _ F4_spd]) simp
  have fs4': "frep ?F4 h4 src S'" by (rule frep_sub[OF fs4]) blast
  have b4: "\<forall>x\<in>?F4. x < length h4"
    using bd bc sprl len1 len3 len4 by fastforce
  have wfS': "jwf S'" using jfind_jwf[OF fnd wf(1)] by (simp add: S'_def)
  have "depth S' \<le> depth (JObj kvs)" using jfind_depth[OF fnd] by (simp add: S'_def)
  then have fuel4: "depth S' + 2 \<le> lim" using fuel(1) by simp
  have MS: "jmerge ?D S' = ?M" by (simp add: S'_def)
  from merge_agree[OF td4 dd fs4' wfS' fuel4 b4] obtain h5 spd5 where
    m5: "mergeConfigs lim h4 (VRef d) [src] = Inr (VRef d, h5)"
    and td5: "tgtp ?F4 h5 (VRef d) ?M spd5"
    and s5: "set spd5 \<subseteq> set spd \<union> {length h4..<length h5}"
    and ag5: "agree (- set spd) h4 h5"
    unfolding MS by blast
  note len5 = agree_length[OF ag5]

  let ?Gc = "Fc \<union> set sp1"
  have Gc_e: "?Gc \<subseteq> - {e}" using edisj e_sp1 by auto
  have Gc_d: "?Gc \<subseteq> - set spd" using disj sp1_spd by auto
  have ag15c: "agree ?Gc h1 h5"
    by (rule agree_trans[OF agree_trans[OF agree_mono[OF ag13 Gc_e] ag34] agree_mono[OF ag5 Gc_d]])
  have fc1: "frep ?Gc h1 (VRef c) (jcreate (JObj kvs) ?segs)"
    by (rule tgtp_frep_set(1)[OF tc1]) simp
  from walk_existing[OF frep_agree(1)[OF fc1 ag15c] fnd] obtain r0 where
    w5: "walk_create h5 (VRef c) ?segs = Inr (r0, h5)" by blast
  have g5: "getOrCreateConfigPath s h5 path = Inr (r0, h5)"
    using w5 ne vp segs cfg by (simp add: getOrCreateConfigPath_def)

  let ?X = "jcreate (jchild kvs p0) rest"
  have jc: "jcreate (JObj kvs) ?segs = JObj (AList.update p0 ?X kvs)" by simp
  from tgtp_mapping_head[OF tc1[unfolded jc]] obtain ps1 sp1' where
    sp1_hd: "sp1 = c # sp1'" and c1: "h1 ! c = Mapping ps1"
    and tp1: "tgt_props Fc h1 ps1 (AList.update p0 ?X kvs) sp1'" by blast
  have lc1: "c < length h1" using lc len1 by simp
  have lc5: "c < length h5" using lc1 len3 len4 len5 by simp
  have c5: "h5 ! c = Mapping ps1"
    using agree_nth[OF ag15c, of c] sp1_hd lc1 c1 by simp
  obtain ct hc where wp5: "wrap_path h5 (VRef d) (rev rest) = (ct, hc)"
    by (cases "wrap_path h5 (VRef d) (rev rest)") auto
  from wrap_path_chain[OF wp5] obtain newc where hc: "hc = h5 @ newc"
    and chc: "chain_at (length h5) hc ct rest (VRef d)" by auto
  let ?h6 = "hc[c := Mapping (AList.update p0 ct ps1)]"
  have st6: "set_prop hc (VRef c) p0 ct = Inr ?h6"
    using lc5 c5 hc by (simp add: cell_def nth_append)
  have ul: "update_loop s h5 (VRef d) (rev ?segs) = Inr ?h6"
    using update_loop_wrap[of "rev ?segs" s h5 "VRef d"] wp5 st6 cfg by simp
  have ag5c: "agree (- {c}) h5 hc" unfolding hc by (rule agree_append)
  have agc6: "agree (- {c}) h5 ?h6"
    by (rule agree_trans[OF ag5c agree_update]) simp
  have lc6: "c < length ?h6" using lc5 hc by simp
  have c6: "?h6 ! c = Mapping (AList.update p0 ct ps1)" using lc5 hc by simp

  let ?Gp = "Fc \<union> set sp1'"
  have c_Gp: "c \<notin> ?Gp" using cF d1 sp1_hd by auto
  have fp1: "frep_props ?Gp h1 ps1 (AList.update p0 ?X kvs)"
    by (rule tgtp_frep_set(2)[OF tp1]) simp
  have Gp_sub: "?Gp \<subseteq> ?Gc" using sp1_hd by auto
  have ag16p: "agree ?Gp h1 ?h6"
    using agree_trans[OF agree_mono[OF ag15c Gp_sub] agree_mono[OF agc6, of ?Gp]] c_Gp by auto
  have fp6: "frep_props UNIV ?h6 ps1 (AList.update p0 ?X kvs)"
    by (rule frep_props_sub[OF frep_agree(2)[OF fp1 ag16p]]) simp
  let ?Gd = "?F4 \<union> set spd5"
  let ?G6 = "?Gd \<union> {length h5..<length hc}"
  have fd5: "frep ?Gd h5 (VRef d) ?M" by (rule tgtp_frep_set(1)[OF td5]) simp
  have "frep ?Gd hc (VRef d) ?M" unfolding hc by (rule frep_extend(1)[OF fd5])
  then have fdc: "frep ?G6 hc (VRef d) ?M" by (rule frep_sub) blast
  have fct: "frep ?G6 hc ct (jchain rest ?M)"
    by (rule chain_at_frep[OF chc fdc]) simp
  have c_G6: "c \<notin> ?G6"
  proof -
    have "c \<notin> Fd" using disj c_in by auto
    moreover have "c \<notin> {length h3..<length h4}" using lc1 len3 by simp
    moreover have "c \<notin> set spd5" using s5 disj c_in lc1 len3 len4 by auto
    moreover have "c \<notin> {length h5..<length hc}" using lc5 by simp
    ultimately show ?thesis using cF cr by simp
  qed
  have agc6': "agree ?G6 hc ?h6" by (rule agree_update[OF c_G6])
  have fct6: "frep UNIV ?h6 ct (jchain rest ?M)"
    by (rule frep_sub[OF frep_agree(1)[OF fct agc6']]) simp
  have fd6: "frep UNIV ?h6 (VRef d) ?M"
    by (rule frep_sub[OF frep_agree(1)[OF fdc agc6']]) simp
  have "frep_props UNIV ?h6 (AList.update p0 ct ps1)
          (AList.update p0 (jchain rest ?M) (AList.update p0 ?X kvs))"
    by (rule frep_props_update[OF fp6 fct6])
  then have fdoc: "frep UNIV ?h6 (VRef c) (JObj (AList.update p0 (jchain rest ?M) kvs))"
    using lc6 c6 by (simp add: update_update_same)
  have sv: "saveConfig s f ?h6
      = Inr (f(configFileName s \<mapsto> Json (JObj (AList.update p0 (jchain rest ?M) kvs))))"
    using frep_stringify[OF fdoc] cfg by (simp add: saveConfig_def)

  have gct: "get_prop ?h6 (VRef c) p0 = Inr ct"
    using lc6 c6 by (simp add: cell_def lookup_prop_def map_of_update_same)
  have ch6: "chain_at (length h5) ?h6 ct rest (VRef d)"
    by (rule chain_at_update[OF chc lc5])
  have tyct: "typeof ct = ''object''"
    using chc by (cases rest) (auto split: val.splits)
  have w6: "walk_create ?h6 (VRef c) ?segs = Inr (VRef d, ?h6)"
    using gct tyct chain_at_walk[OF ch6] by simp
  have g6: "getOrCreateConfigPath s ?h6 path = Inr (VRef d, ?h6)"
    using w6 ne vp segs cfg by (simp add: getOrCreateConfigPath_def)
  have up: "updateConfigPath s f h5 path (VRef d)
      = Inr (VRef d, ?h6, f(configFileName s \<mapsto>
                Json (JObj (AList.update p0 (jchain rest ?M) kvs))))"
    using g5 ul sv g6 ne segs by (simp add: updateConfigPath_def)
  have cs: "configSection lim s f h path (VRef d)
      = Inr (VRef d, ?h6, f(configFileName s \<mapsto>
                Json (JObj (AList.update p0 (jchain rest ?M) kvs))))"
    unfolding configSection_def
    by (simp only: g1 bindE_simps fst_conv snd_conv rd if_False ad srcq prod.case m5 up)
  from cs frep_stringify[OF fd6] g6 show ?thesis by blast
qed

lemma alloc_tree_stringify: "alloc_tree h T = (v, h') \<Longrightarrow> stringify h' v = Inr (Some T)"
  by (rule frep_stringify[OF alloc_tree_frep(1)[where F = UNIV]]) simp_all

lemma alloc_tree_owned:
  assumes al: "alloc_tree h T = (v, h')"
  shows "\<exists>F sp. tgtp F h' v T sp \<and> distinct sp \<and> F \<union> set sp \<subseteq> {length h..<length h'}
           \<and> (\<exists>new. h' = h @ new)"
proof -
  from alloc_tree_tgtp(1)[OF al] obtain sp where
    d: "distinct sp" and s: "set sp \<subseteq> {length h..<length h'}"
    and t: "\<forall>F. {length h..<length h'} - set sp \<subseteq> F \<longrightarrow> F \<inter> set sp = {} \<longrightarrow> tgtp F h' v T sp"
    by blast
  let ?F = "{length h..<length h'} - set sp"
  from t have "tgtp ?F h' v T sp" by blast
  moreover have "?F \<union> set sp \<subseteq> {length h..<length h'}" using s by blast
  ultimately show ?thesis using d alloc_tree_extends(1)[OF al] by blast
qed

lemma constructor_tree:
  assumes fl: "f fileName = None \<and> kvs = [] \<or> f fileName = Some (Json (JObj kvs))"
    and wf: "jwf (JObj kvs)" and fuel: "depth (JObj kvs) + 2 \<le> lim"
  shows "\<exists>s h c e Fc spc. constructor lim f h0 fileName = (s, h) \<and> config s = VRef c
      \<and> defaultConfig s = VRef e \<and> configFileName s = fileName
      \<and> tgtp Fc h (VRef c) (JObj kvs) spc \<and> distinct spc \<and> (\<forall>x\<in>Fc \<union> set spc. x < length h)
      \<and> e < length h \<and> h ! e = Mapping [] \<and> e \<notin> Fc \<union> set spc"
proof -
  let ?h2 = "h0 @ [Mapping [], Mapping []]"
  let ?e = "Suc (length h0)"
  from fl show ?thesis
  proof
    assume n: "f fileName = None \<and> kvs = []"
    let ?c = "Suc (Suc (length h0))"
    let ?h3 = "?h2 @ [Mapping []]"
    let ?s = "\<lparr>created = True, oldConfig = VRef (length h0), config = VRef ?c,
                defaultConfig = VRef ?e, configFileLoadingError = None,
                configFileName = fileName\<rparr>"
    have c: "constructor lim f h0 fileName = (?s, ?h3)"
      using n by (simp add: constructor_def alloc_def)
    have t: "tgtp {} ?h3 (VRef ?c) (JObj kvs) [?c]" using n by (simp add: nth_append)
    have e: "?h3 ! ?e = Mapping []" by (simp add: nth_append)
    show ?thesis
      by (rule exI[of _ ?s], rule exI[of _ ?h3], rule exI[of _ ?c], rule exI[of _ ?e],
          rule exI[of _ "{}"], rule exI[of _ "[?c]"]) (use c t e in simp)
  next
    assume j: "f fileName = Some (Json (JObj kvs))"
    obtain c h3 where al: "alloc_tree ?h2 (JObj kvs) = (c, h3)"
      by (cases "alloc_tree ?h2 (JObj kvs)") auto
    from alloc_tree_owned[OF al] obtain Fc spc new where
      t3: "tgtp Fc h3 c (JObj kvs) spc" and d: "distinct spc"
      and r: "Fc \<union> set spc \<subseteq> {length ?h2..<length h3}" and h3: "h3 = ?h2 @ new"
      by blast
    from t3 obtain c0 where c0: "c = VRef c0" by auto
    let ?R = "{length ?h2..<length h3}"
    let ?copy = "length h3"
    let ?h4 = "h3 @ [Mapping []]"
    have f3: "frep ?R h3 c (JObj kvs)" by (rule alloc_tree_frep(1)[OF al]) simp
    have f4: "frep ?R ?h4 c (JObj kvs)" by (rule frep_extend(1)[OF f3])
    have t4: "tgtp ?R ?h4 (VRef ?copy) (JObj []) [?copy]" by simp
    have b4: "\<forall>x\<in>?R. x < length ?h4" by simp
    from merge_agree[OF t4 _ f4 wf fuel b4] obtain h5 where
      m: "mergeConfigs lim ?h4 (VRef ?copy) [c] = Inr (VRef ?copy, h5)"
      and ag: "agree (- set [?copy]) ?h4 h5"
      by auto
    let ?s = "\<lparr>created = False, oldConfig = VRef ?copy, config = c,
                defaultConfig = VRef ?e, configFileLoadingError = None,
                configFileName = fileName\<rparr>"
    have cons: "constructor lim f h0 fileName = (?s, h5)"
      using j al m by (simp add: constructor_def alloc_def)
    have ag35: "agree (- {?copy}) h3 h5"
      using agree_trans[OF agree_append[of "- {?copy}" h3 "[Mapping []]"]] ag by simp
    note len5 = agree_length[OF ag35]
    have sub: "Fc \<union> set spc \<subseteq> - {?copy}" using r by auto
    have t5: "tgtp Fc h5 c (JObj kvs) spc"
      by (rule tgtp_agree(1)[OF t3 agree_mono[OF ag35 sub]])
    have le3: "?e < length h3" using h3 by simp
    have "h3 ! ?e = Mapping []" using h3 by (simp add: nth_append)
    then have e5: "h5 ! ?e = Mapping []" using agree_nth[OF ag35, of ?e] le3 by simp
    have b: "\<forall>x\<in>Fc \<union> set spc. x < length h5" using r len5 by fastforce
    have en: "?e \<notin> Fc \<union> set spc" using r by fastforce
    have le5: "?e < length h5" using le3 len5 by simp
    show ?thesis
      by (rule exI[of _ ?s], rule exI[of _ h5], rule exI[of _ c0], rule exI[of _ ?e],
          rule exI[of _ Fc], rule exI[of _ spc])
         (use cons c0 t5 d b le5 e5 en in simp)
  qed
qed





subsection \<open>Validation of a document that holds \<open>null\<close>\<close>

text \<open>
  On a document without \<open>null\<close> the walk does what is expected of it: over the file
  \<open>{"DB": {"credentials": {"user": "x"}, "legacy": 1}}\<close>, after
  \<open>configSection('DB', {credentials: {user: 'admin'}})\<close>, \<open>validateConfig(true)\<close> reports
  \<open>DB.legacy\<close> as unused, deletes it from the document and writes the pruned document.
\<close>

lemma validateConfig_reports_unused_example:
  "\<exists>s d r h' f' h2.
     section_scenario (Suc (Suc (Suc (Suc n))))
         (Map.empty(''config.json'' \<mapsto>
            Json (JObj [(''DB'', JObj [(''credentials'', JObj [(''user'', JStr ''x'')]),
                                      (''legacy'', JNum 1)])])))
         [] ''config.json'' ''DB'' (JObj [(''credentials'', JObj [(''user'', JStr ''admin'')])])
       = (s, d, Inr (r, h', f'))
     \<and> validateConfig (Suc (Suc (Suc (Suc n)))) s f' h' True
         = Inr (\<lparr>v_created = CreatedKeys [], wrongTypes = [], unusedValues = [''DB.legacy'']\<rparr>,
                h2,
                f'(''config.json'' \<mapsto>
                  Json (JObj [(''DB'', JObj [(''credentials'', JObj [(''user'', JStr ''x'')])])])))
     \<and> stringify h2 (config s)
         = Inr (Some (JObj [(''DB'', JObj [(''credentials'', JObj [(''user'', JStr ''x'')])])]))"
  by (simp add: store_defs js_defs nth_append list_update_append)

text \<open>
  C9. The report of the unused keys is not produced for every document. The walk
  descends whenever \<open>typeof\<close> of the stored value and of the default are both
  \<open>'object'\<close>, which \<open>null\<close> satisfies. Over the file
  \<open>{"DB": {"credentials": null, "legacy": 1}}\<close>, after
  \<open>configSection('DB', {credentials: {user: 'admin'}})\<close> the document holds
  \<open>credentials: null\<close> and the key \<open>legacy\<close>, which the defaults do not have; the walk
  reaches \<open>credentials\<close>, calls itself on \<open>null\<close>, and \<open>Object.keys(null)\<close> throws a
  \<open>TypeError\<close>: \<open>validateConfig\<close> returns no report, with or without
  \<open>clearUnusedValues\<close>, whatever the depth of the stack.
\<close>

theorem validateConfig_null_under_object_default:
  "\<exists>s d r h' f'.
     section_scenario (Suc (Suc (Suc (Suc n))))
         (Map.empty(''config.json'' \<mapsto>
            Json (JObj [(''DB'', JObj [(''credentials'', JNull), (''legacy'', JNum 1)])])))
         [] ''config.json'' ''DB'' (JObj [(''credentials'', JObj [(''user'', JStr ''admin'')])])
       = (s, d, Inr (r, h', f'))
     \<and> stringify h' (config s)
         = Inr (Some (JObj [(''DB'', JObj [(''credentials'', JNull), (''legacy'', JNum 1)])]))
     \<and> stringify h' (defaultConfig s)
         = Inr (Some (JObj [(''DB'', JObj [(''credentials'', JObj [(''user'', JStr ''admin'')])])]))
     \<and> validateConfig (Suc (Suc (Suc (Suc n)))) s f' h' False = Inl TypeError
     \<and> validateConfig (Suc (Suc (Suc (Suc n)))) s f' h' True = Inl TypeError"
  by (simp add: store_defs js_defs nth_append list_update_append)

end
